theory Spec2Isabelle
  imports Main "HOL-Library.Word"
begin

section \<open>Burnvelope: one-time secret sharing\<close>

text \<open>
  A shallow embedding of the Burnvelope sources: the client-side encryption utilities
  (\<^verbatim>\<open>src/lib/crypto.ts\<close>), the handler that creates a secret
  (\<^verbatim>\<open>POST /api/secrets\<close>) and the handler that retrieves and deletes one
  (\<^verbatim>\<open>functions/api/secrets/[id].ts\<close>).

  A JavaScript string is a list of UTF-16 code units, a \<^verbatim>\<open>Uint8Array\<close> a list of
  bytes. An exception is the \<open>Inl\<close> of a sum. Randomness and the clock are arguments.
  The Web Crypto primitives (AES-GCM, HKDF) and \<^verbatim>\<open>JSON\<close> are parameters, collected in
  the record \<open>platform\<close>; \<^verbatim>\<open>btoa\<close>, \<^verbatim>\<open>atob\<close>, \<^verbatim>\<open>TextEncoder\<close> and
  \<^verbatim>\<open>TextDecoder\<close> are modelled after the WHATWG standards that define them.
\<close>

subsection \<open>Bytes, strings and exceptions\<close>

type_synonym byte = "8 word"
type_synonym jsstring = "16 word list"

datatype js_error = InvalidCharacterError | DataError | OperationError | SyntaxError

text \<open>A string literal of the source, as code units.\<close>

definition js :: "string \<Rightarrow> jsstring" where
  "js s = map (\<lambda>c. of_nat (of_char c)) s"

text \<open>\<^verbatim>\<open>String.fromCharCode(bytes[i])\<close> and \<^verbatim>\<open>bytes[i] = binary.charCodeAt(i)\<close>
  (a store into a \<^verbatim>\<open>Uint8Array\<close> keeps the value modulo 256).\<close>

definition fromCharCode :: "byte \<Rightarrow> 16 word" where
  "fromCharCode b = of_nat (unat b)"

definition charCodeAt_u8 :: "16 word \<Rightarrow> byte" where
  "charCodeAt_u8 c = of_nat (unat c mod 256)"

subsection \<open>Base64: \<^verbatim>\<open>btoa\<close> and \<^verbatim>\<open>atob\<close>\<close>

text \<open>
  The alphabet \<^verbatim>\<open>A-Z a-z 0-9 + /\<close> by code unit: \<open>A\<close> is 65, \<open>a\<close> is 97, \<open>0\<close> is 48,
  \<open>+\<close> is 43, \<open>/\<close> is 47; the padding \<open>=\<close> is 61, \<open>-\<close> is 45 and \<open>_\<close> is 95.
\<close>

definition b64_char :: "nat \<Rightarrow> 16 word" where
  "b64_char n =
     (if n < 26 then of_nat (65 + n)
      else if n < 52 then of_nat (71 + n)
      else if n < 62 then of_nat (n - 4)
      else if n = 62 then 43 else 47)"

definition b64_val :: "16 word \<Rightarrow> nat option" where
  "b64_val c =
     (let u = unat c in
      if 65 \<le> u \<and> u \<le> 90 then Some (u - 65)
      else if 97 \<le> u \<and> u \<le> 122 then Some (u - 71)
      else if 48 \<le> u \<and> u \<le> 57 then Some (u + 4)
      else if u = 43 then Some 62
      else if u = 47 then Some 63
      else None)"

text \<open>Three bytes are 24 bits, read as four 6-bit numbers; a last group of two bytes is
  padded with two zero bits, a last single byte with four.\<close>

fun sextets :: "byte list \<Rightarrow> nat list" where
  "sextets (a # b # c # rest) =
     (let n = (unat a * 256 + unat b) * 256 + unat c
      in n div 262144 # n div 4096 mod 64 # n div 64 mod 64 # n mod 64 # sextets rest)"
| "sextets [a, b] =
     (let n = (unat a * 256 + unat b) * 4
      in [n div 4096, n div 64 mod 64, n mod 64])"
| "sextets [a] = (let n = unat a * 16 in [n div 64, n mod 64])"
| "sextets [] = []"

fun b64_padding :: "byte list \<Rightarrow> jsstring" where
  "b64_padding (a # b # c # rest) = b64_padding rest"
| "b64_padding [a, b] = [61]"
| "b64_padding [a] = [61, 61]"
| "b64_padding [] = []"

definition b64_encode :: "byte list \<Rightarrow> jsstring" where
  "b64_encode bs = map b64_char (sextets bs) @ b64_padding bs"

text \<open>\<^verbatim>\<open>btoa\<close> throws on a code unit above 255.\<close>

definition btoa :: "jsstring \<Rightarrow> js_error + jsstring" where
  "btoa s =
     (if list_all (\<lambda>c. unat c \<le> 255) s
      then Inr (b64_encode (map (\<lambda>c. of_nat (unat c)) s))
      else Inl InvalidCharacterError)"

text \<open>\<^verbatim>\<open>arrayBufferToBase64\<close> (crypto.ts, lines 117-124 and 412-419).\<close>

definition arrayBufferToBase64 :: "byte list \<Rightarrow> js_error + jsstring" where
  "arrayBufferToBase64 buffer = btoa (map fromCharCode buffer)"

text \<open>
  \<^verbatim>\<open>atob\<close> is the forgiving-base64 decode: ASCII whitespace is removed; when the length is
  then a multiple of four, one or two trailing \<open>=\<close> are removed; a length that leaves
  remainder 1, or a code unit outside the alphabet, is an error; the 6-bit numbers are
  regrouped into bytes and the bits left over are dropped.
\<close>

definition ascii_whitespace :: "16 word \<Rightarrow> bool" where
  "ascii_whitespace c = (c = 9 \<or> c = 10 \<or> c = 12 \<or> c = 13 \<or> c = 32)"

definition strip_padding :: "jsstring \<Rightarrow> jsstring" where
  "strip_padding d =
     (if length d mod 4 = 0 then
        (case rev d of
           e1 # e2 # r \<Rightarrow>
             if e1 = 61 \<and> e2 = 61 then rev r
             else if e1 = 61 then rev (e2 # r)
             else d
         | _ \<Rightarrow> d)
      else d)"

fun octets :: "nat list \<Rightarrow> byte list" where
  "octets (w # x # y # z # rest) =
     (let n = ((w * 64 + x) * 64 + y) * 64 + z
      in of_nat (n div 65536) # of_nat (n div 256 mod 256) # of_nat (n mod 256) # octets rest)"
| "octets [w, x, y] =
     (let n = ((w * 64 + x) * 64 + y) div 4
      in [of_nat (n div 256), of_nat (n mod 256)])"
| "octets [w, x] = [of_nat ((w * 64 + x) div 16)]"
| "octets [w] = []"
| "octets [] = []"

definition atob :: "jsstring \<Rightarrow> js_error + jsstring" where
  "atob input =
     (let d = strip_padding (filter (\<lambda>c. \<not> ascii_whitespace c) input) in
      if length d mod 4 = 1 then Inl InvalidCharacterError
      else if list_ex (\<lambda>c. b64_val c = None) d then Inl InvalidCharacterError
      else Inr (map fromCharCode (octets (map (\<lambda>c. the (b64_val c)) d))))"

text \<open>\<^verbatim>\<open>base64ToArrayBuffer\<close> (crypto.ts, lines 129-136 and 403-410; [id].ts, lines
  151-158).\<close>

definition base64ToArrayBuffer :: "jsstring \<Rightarrow> js_error + byte list" where
  "base64ToArrayBuffer base64 =
     (case atob base64 of
        Inl e \<Rightarrow> Inl e
      | Inr binary \<Rightarrow> Inr (map charCodeAt_u8 binary))"

subsection \<open>Base64url keys\<close>

text \<open>\<^verbatim>\<open>s.replace(/a/g, b)\<close> for a single character, and \<^verbatim>\<open>s.replace(/=+$/, '')\<close>.\<close>

definition replace_all :: "16 word \<Rightarrow> 16 word \<Rightarrow> jsstring \<Rightarrow> jsstring" where
  "replace_all a b s = map (\<lambda>c. if c = a then b else c) s"

definition strip_trailing_eq :: "jsstring \<Rightarrow> jsstring" where
  "strip_trailing_eq s = rev (dropWhile (\<lambda>c. c = 61) (rev s))"

text \<open>\<^verbatim>\<open>arrayBufferToBase64url\<close> (lines 141-144), \<^verbatim>\<open>base64urlToArrayBuffer\<close> (lines
  149-157), \<^verbatim>\<open>isValidKey\<close> (lines 162-170) and \<^verbatim>\<open>generateKey\<close> (lines 17-29), whose
  argument is the raw key that \<^verbatim>\<open>exportKey\<close> returns.\<close>

definition arrayBufferToBase64url :: "byte list \<Rightarrow> js_error + jsstring" where
  "arrayBufferToBase64url buffer =
     (case arrayBufferToBase64 buffer of
        Inl e \<Rightarrow> Inl e
      | Inr base64 \<Rightarrow> Inr (strip_trailing_eq (replace_all 47 95 (replace_all 43 45 base64))))"

definition base64urlToArrayBuffer :: "jsstring \<Rightarrow> js_error + byte list" where
  "base64urlToArrayBuffer base64url =
     (let base64 = replace_all 95 47 (replace_all 45 43 base64url);
          padding = length base64 mod 4
      in base64ToArrayBuffer
           (if padding \<noteq> 0 then base64 @ replicate (4 - padding) 61 else base64))"

definition isValidKey :: "jsstring \<Rightarrow> bool" where
  "isValidKey key =
     (case base64urlToArrayBuffer key of
        Inl e \<Rightarrow> False
      | Inr buffer \<Rightarrow> length buffer = 32)"

definition generateKey :: "byte list \<Rightarrow> js_error + jsstring" where
  "generateKey rawKey = arrayBufferToBase64url rawKey"

text \<open>The image of a base64 character under the two replacements of
  \<^verbatim>\<open>arrayBufferToBase64url\<close>.\<close>

definition url_char :: "16 word \<Rightarrow> 16 word" where
  "url_char c = (if c = 47 then 95 else if c = 43 then 45 else c)"

subsection \<open>\<^verbatim>\<open>TextEncoder\<close> and \<^verbatim>\<open>TextDecoder\<close>\<close>

text \<open>
  \<^verbatim>\<open>new TextEncoder().encode(s)\<close> reads \<open>s\<close> as scalar values, a surrogate without its
  partner becoming U+FFFD (65533), and writes each in UTF-8. The surrogates are
  55296..57343 (D800..DFFF).
\<close>

definition is_high_surrogate :: "16 word \<Rightarrow> bool" where
  "is_high_surrogate c = (55296 \<le> unat c \<and> unat c \<le> 56319)"

definition is_low_surrogate :: "16 word \<Rightarrow> bool" where
  "is_low_surrogate c = (56320 \<le> unat c \<and> unat c \<le> 57343)"

fun code_points :: "jsstring \<Rightarrow> nat list" where
  "code_points [] = []"
| "code_points [c] = [if is_high_surrogate c \<or> is_low_surrogate c then 65533 else unat c]"
| "code_points (c # d # cs) =
     (if is_high_surrogate c \<and> is_low_surrogate d
      then (65536 + (unat c - 55296) * 1024 + (unat d - 56320)) # code_points cs
      else (if is_high_surrogate c \<or> is_low_surrogate c then 65533 else unat c)
             # code_points (d # cs))"

definition utf8_bytes :: "nat \<Rightarrow> byte list" where
  "utf8_bytes cp =
     (if cp < 128 then [of_nat cp]
      else if cp < 2048 then [of_nat (192 + cp div 64), of_nat (128 + cp mod 64)]
      else if cp < 65536 then
        [of_nat (224 + cp div 4096), of_nat (128 + cp div 64 mod 64), of_nat (128 + cp mod 64)]
      else
        [of_nat (240 + cp div 262144), of_nat (128 + cp div 4096 mod 64),
         of_nat (128 + cp div 64 mod 64), of_nat (128 + cp mod 64)])"

definition TextEncoder_encode :: "jsstring \<Rightarrow> byte list" where
  "TextEncoder_encode s = concat (map utf8_bytes (code_points s))"

text \<open>
  The UTF-8 decoder of the Encoding Standard, with its state: the code point being
  assembled, the bytes seen and needed, and the bounds of the next byte. An ill-formed
  sequence yields U+FFFD and the offending byte is read again. \<^verbatim>\<open>new TextDecoder()\<close> is
  not fatal and does not ignore the byte order mark: a leading U+FEFF (65279) is dropped
  from the output.
\<close>

function utf8_decode :: "nat \<Rightarrow> nat \<Rightarrow> nat \<Rightarrow> nat \<Rightarrow> nat \<Rightarrow> byte list \<Rightarrow> nat list" where
  "utf8_decode cp seen needed lower upper [] = (if needed \<noteq> 0 then [65533] else [])"
| "utf8_decode cp seen needed lower upper (b # bs) =
     (if needed = 0 then
        (if unat b \<le> 127 then unat b # utf8_decode 0 0 0 128 191 bs
         else if 194 \<le> unat b \<and> unat b \<le> 223 then
           utf8_decode (unat b mod 32) 0 1 128 191 bs
         else if 224 \<le> unat b \<and> unat b \<le> 239 then
           utf8_decode (unat b mod 16) 0 2
             (if unat b = 224 then 160 else 128) (if unat b = 237 then 159 else 191) bs
         else if 240 \<le> unat b \<and> unat b \<le> 244 then
           utf8_decode (unat b mod 8) 0 3
             (if unat b = 240 then 144 else 128) (if unat b = 244 then 143 else 191) bs
         else 65533 # utf8_decode 0 0 0 128 191 bs)
      else if unat b < lower \<or> upper < unat b then
        65533 # utf8_decode 0 0 0 128 191 (b # bs)
      else if seen + 1 \<noteq> needed then
        utf8_decode (cp * 64 + unat b mod 64) (seen + 1) needed 128 191 bs
      else (cp * 64 + unat b mod 64) # utf8_decode 0 0 0 128 191 bs)"
  by pat_completeness auto
termination
  by (relation "measure (\<lambda>(cp, seen, needed, lower, upper, bs).
        2 * length bs + (if needed = 0 then 0 else 1))") auto

definition utf16_units :: "nat \<Rightarrow> jsstring" where
  "utf16_units cp =
     (if cp < 65536 then [of_nat cp]
      else [of_nat (55296 + (cp - 65536) div 1024), of_nat (56320 + (cp - 65536) mod 1024)])"

definition strip_bom :: "nat list \<Rightarrow> nat list" where
  "strip_bom cps = (case cps of [] \<Rightarrow> [] | c # rest \<Rightarrow> if c = 65279 then rest else cps)"

definition TextDecoder_decode :: "byte list \<Rightarrow> jsstring" where
  "TextDecoder_decode bytes =
     concat (map utf16_units (strip_bom (utf8_decode 0 0 0 128 191 bytes)))"

text \<open>\<^verbatim>\<open>String.prototype.isWellFormed\<close>: no surrogate stands without its partner.\<close>

fun isWellFormed :: "jsstring \<Rightarrow> bool" where
  "isWellFormed [] = True"
| "isWellFormed [c] = (\<not> is_high_surrogate c \<and> \<not> is_low_surrogate c)"
| "isWellFormed (c # d # cs) =
     (if is_high_surrogate c \<and> is_low_surrogate d then isWellFormed cs
      else \<not> is_high_surrogate c \<and> \<not> is_low_surrogate c \<and> isWellFormed (d # cs))"

definition is_scalar :: "nat \<Rightarrow> bool" where
  "is_scalar cp = (cp < 1114112 \<and> \<not> (55296 \<le> cp \<and> cp \<le> 57343))"

subsection \<open>The platform's primitives\<close>

text \<open>
  The record that the key-value store holds under \<^verbatim>\<open>secret:<id>\<close> (\<^verbatim>\<open>StoredSecret\<close>,
  [id].ts, lines 11-14), and the primitives that the sources call and do not define:
  AES-GCM with a 128-bit tag (key, nonce, data), HKDF-SHA-256 producing a 256-bit key
  (key material, salt, info), and \<^verbatim>\<open>JSON.stringify\<close> and \<^verbatim>\<open>JSON.parse\<close> on a stored
  record, where \<open>None\<close> is the \<^verbatim>\<open>SyntaxError\<close> of \<^verbatim>\<open>JSON.parse\<close>. A text that parses
  is taken to have the shape that the handler's annotation \<^verbatim>\<open>StoredSecret\<close> declares.
  \<open>importKey\<close> below follows the Web Cryptography specification on key lengths.
\<close>

record stored_secret =
  data :: jsstring
  createdAt :: int

record platform =
  aes_gcm_encrypt :: "byte list \<Rightarrow> byte list \<Rightarrow> byte list \<Rightarrow> byte list"
  aes_gcm_decrypt :: "byte list \<Rightarrow> byte list \<Rightarrow> byte list \<Rightarrow> byte list option"
  hkdf_sha256 :: "byte list \<Rightarrow> byte list \<Rightarrow> byte list \<Rightarrow> byte list"
  json_stringify :: "stored_secret \<Rightarrow> jsstring"
  json_parse :: "jsstring \<Rightarrow> stored_secret option"

text \<open>What an authenticated cipher promises: decryption under the same key and nonce
  returns what was encrypted.\<close>

definition aead_correct :: "platform \<Rightarrow> bool" where
  "aead_correct P =
     (\<forall>key iv d. aes_gcm_decrypt P key iv (aes_gcm_encrypt P key iv d) = Some d)"

subsection \<open>Client-side encryption (crypto.ts, lines 37-112)\<close>

text \<open>\<^verbatim>\<open>importKey\<close>: a raw AES key is 128, 192 or 256 bits long, any other length is a
  \<^verbatim>\<open>DataError\<close>. In \<open>encrypt\<close>, the first argument is the nonce that
  \<^verbatim>\<open>crypto.getRandomValues\<close> returns.\<close>

definition importKey :: "jsstring \<Rightarrow> js_error + byte list" where
  "importKey keyBase64url =
     (case base64urlToArrayBuffer keyBase64url of
        Inl e \<Rightarrow> Inl e
      | Inr rawKey \<Rightarrow>
          if length rawKey = 16 \<or> length rawKey = 24 \<or> length rawKey = 32
          then Inr rawKey else Inl DataError)"

definition IV_LENGTH :: nat where
  "IV_LENGTH = 12"

definition encrypt :: "platform \<Rightarrow> byte list \<Rightarrow> jsstring \<Rightarrow> jsstring \<Rightarrow> js_error + jsstring" where
  "encrypt P iv plaintext keyBase64url =
     (case importKey keyBase64url of
        Inl e \<Rightarrow> Inl e
      | Inr key \<Rightarrow>
          (let ciphertext = aes_gcm_encrypt P key iv (TextEncoder_encode plaintext);
               combined = iv @ ciphertext
           in arrayBufferToBase64 combined))"

definition decrypt :: "platform \<Rightarrow> jsstring \<Rightarrow> jsstring \<Rightarrow> js_error + jsstring" where
  "decrypt P ciphertextBase64 keyBase64url =
     (case importKey keyBase64url of
        Inl e \<Rightarrow> Inl e
      | Inr key \<Rightarrow>
          (case base64ToArrayBuffer ciphertextBase64 of
             Inl e \<Rightarrow> Inl e
           | Inr combinedArray \<Rightarrow>
               (let iv = take IV_LENGTH combinedArray;
                    ciphertext = drop IV_LENGTH combinedArray
                in case aes_gcm_decrypt P key iv ciphertext of
                     None \<Rightarrow> Inl OperationError
                   | Some decrypted \<Rightarrow> Inr (TextDecoder_decode decrypted))))"

subsection \<open>Server-side encryption (crypto.ts, lines 345-391; [id].ts, lines 96-139)\<close>

text \<open>In \<open>serverEncrypt\<close>, the salt and the nonce are the two values that
  \<^verbatim>\<open>crypto.getRandomValues\<close> returns.\<close>

definition hkdf_info :: "byte list" where
  "hkdf_info = TextEncoder_encode (js ''burnvelope-server-encryption'')"

definition serverEncrypt ::
  "platform \<Rightarrow> byte list \<Rightarrow> byte list \<Rightarrow> jsstring \<Rightarrow> jsstring \<Rightarrow> js_error + jsstring" where
  "serverEncrypt P salt iv dat keyBase64 =
     (case base64ToArrayBuffer keyBase64 of
        Inl e \<Rightarrow> Inl e
      | Inr keyMaterial \<Rightarrow>
          (let key = hkdf_sha256 P keyMaterial salt hkdf_info;
               ciphertext = aes_gcm_encrypt P key iv (TextEncoder_encode dat);
               combined = salt @ iv @ ciphertext
           in arrayBufferToBase64 combined))"

definition serverDecrypt :: "platform \<Rightarrow> jsstring \<Rightarrow> jsstring \<Rightarrow> js_error + jsstring" where
  "serverDecrypt P envelope keyBase64 =
     (case base64ToArrayBuffer envelope of
        Inl e \<Rightarrow> Inl e
      | Inr combined \<Rightarrow>
          (let salt = take 16 combined;
               iv = take 12 (drop 16 combined);
               ciphertext = drop 28 combined
           in case base64ToArrayBuffer keyBase64 of
                Inl e \<Rightarrow> Inl e
              | Inr keyMaterial \<Rightarrow>
                  (let key = hkdf_sha256 P keyMaterial salt hkdf_info
                   in case aes_gcm_decrypt P key iv ciphertext of
                        None \<Rightarrow> Inl OperationError
                      | Some decrypted \<Rightarrow> Inr (TextDecoder_decode decrypted))))"

subsection \<open>The key-value store\<close>

text \<open>
  The \<^verbatim>\<open>SECRETS\<close> namespace: a map from keys to values, each stored with the time to
  live that \<^verbatim>\<open>put\<close> was given. Expiry is the store's own and is not modelled. The
  namespace also records the calls made on it, in order, so that a handler that returns
  without touching the store is told from one that reads it.
\<close>

record kv_entry =
  kv_value :: jsstring
  expirationTtl :: int

datatype kv_call = KvGet jsstring | KvPut jsstring jsstring int | KvDelete jsstring

record kv_namespace =
  entries :: "jsstring \<rightharpoonup> kv_entry"
  calls :: "kv_call list"

definition kv_get :: "jsstring \<Rightarrow> kv_namespace \<Rightarrow> jsstring option \<times> kv_namespace" where
  "kv_get key kv = (map_option kv_value (entries kv key), kv\<lparr>calls := calls kv @ [KvGet key]\<rparr>)"

definition kv_put :: "jsstring \<Rightarrow> jsstring \<Rightarrow> int \<Rightarrow> kv_namespace \<Rightarrow> kv_namespace" where
  "kv_put key v ttl kv =
     kv\<lparr>entries := (entries kv)(key \<mapsto> \<lparr>kv_value = v, expirationTtl = ttl\<rparr>),
        calls := calls kv @ [KvPut key v ttl]\<rparr>"

definition kv_delete :: "jsstring \<Rightarrow> kv_namespace \<Rightarrow> kv_namespace" where
  "kv_delete key kv =
     kv\<lparr>entries := (entries kv)(key := None), calls := calls kv @ [KvDelete key]\<rparr>"

subsection \<open>Responses\<close>

text \<open>The three JSON bodies of the two handlers (\<^verbatim>\<open>ErrorResponse\<close>,
  \<^verbatim>\<open>GetSecretResponse\<close>, \<^verbatim>\<open>CreateSecretResponse\<close>) and \<^verbatim>\<open>jsonResponse\<close>. The CORS
  headers are the same on every response and are left out; \<open>expiresAt\<close> is kept as
  epoch milliseconds, before \<^verbatim>\<open>toISOString\<close>.\<close>

datatype payload =
    ErrorResponse jsstring
  | GetSecretResponse jsstring
  | CreateSecretResponse jsstring int

record response =
  status :: nat
  body :: payload

definition jsonResponse :: "payload \<Rightarrow> nat \<Rightarrow> response" where
  "jsonResponse d s = \<lparr>status = s, body = d\<rparr>"

subsection \<open>Retrieving a secret: \<^verbatim>\<open>onRequestGet\<close> ([id].ts, lines 24-80)\<close>

text \<open>
  \<open>Env\<close> is the handler's environment as its interface declares it (lines 6-9); the
  \<^verbatim>\<open>SECRETS\<close> binding is the store that the handler takes and returns. Every exception
  inside the \<^verbatim>\<open>try\<close> block ends in the \<^verbatim>\<open>catch\<close> at line 72. \<^verbatim>\<open>!stored\<close> holds for
  \<^verbatim>\<open>null\<close> and for the empty string.
\<close>

record Env =
  ENCRYPTION_KEY :: jsstring

definition onRequestGet ::
  "platform \<Rightarrow> Env \<Rightarrow> jsstring \<Rightarrow> kv_namespace \<Rightarrow> response \<times> kv_namespace" where
  "onRequestGet P env ident kv =
     (if ident = [] \<or> length ident < 6 \<or> length ident > 12
      then (jsonResponse (ErrorResponse (js ''Invalid secret ID'')) 400, kv)
      else
        (let key = js ''secret:'' @ ident;
             (stored, kv1) = kv_get key kv
         in case stored of
              None \<Rightarrow>
                (jsonResponse (ErrorResponse (js ''Secret not found or already viewed'')) 404, kv1)
            | Some text \<Rightarrow>
                if text = []
                then (jsonResponse
                        (ErrorResponse (js ''Secret not found or already viewed'')) 404, kv1)
                else
                  (case json_parse P text of
                     None \<Rightarrow>
                       (jsonResponse (ErrorResponse (js ''Failed to retrieve secret'')) 500, kv1)
                   | Some secretData \<Rightarrow>
                       (let kv2 = kv_delete key kv1
                        in case serverDecrypt P (data secretData) (ENCRYPTION_KEY env) of
                             Inl e \<Rightarrow>
                               (jsonResponse
                                  (ErrorResponse (js ''Failed to retrieve secret'')) 500, kv2)
                           | Inr clientEncrypted \<Rightarrow>
                               (jsonResponse (GetSecretResponse clientEncrypted) 200, kv2)))))"

text \<open>
  The same handler cut at its \<^verbatim>\<open>await\<close>s, where another request can run: after
  \<^verbatim>\<open>await env.SECRETS.get(key)\<close> (line 48), after \<^verbatim>\<open>await env.SECRETS.delete(key)\<close>
  (line 62), and the response. Each step makes at most one call on the store.
  \<open>interleave\<close> runs several requests under a schedule that names, step by step, the
  request that moves.
\<close>

datatype get_pc =
    Entry
  | AwaitedGet "jsstring option"
  | AwaitedDelete stored_secret
  | Responded response

definition get_step ::
  "platform \<Rightarrow> Env \<Rightarrow> jsstring \<Rightarrow> get_pc \<times> kv_namespace \<Rightarrow> get_pc \<times> kv_namespace" where
  "get_step P env ident st =
     (case st of (pc, kv) \<Rightarrow>
        (case pc of
           Entry \<Rightarrow>
             if ident = [] \<or> length ident < 6 \<or> length ident > 12
             then (Responded (jsonResponse (ErrorResponse (js ''Invalid secret ID'')) 400), kv)
             else (let (stored, kv1) = kv_get (js ''secret:'' @ ident) kv
                   in (AwaitedGet stored, kv1))
         | AwaitedGet stored \<Rightarrow>
             (case stored of
                None \<Rightarrow>
                  (Responded (jsonResponse
                     (ErrorResponse (js ''Secret not found or already viewed'')) 404), kv)
              | Some text \<Rightarrow>
                  if text = []
                  then (Responded (jsonResponse
                          (ErrorResponse (js ''Secret not found or already viewed'')) 404), kv)
                  else
                    (case json_parse P text of
                       None \<Rightarrow>
                         (Responded (jsonResponse
                            (ErrorResponse (js ''Failed to retrieve secret'')) 500), kv)
                     | Some secretData \<Rightarrow>
                         (AwaitedDelete secretData, kv_delete (js ''secret:'' @ ident) kv)))
         | AwaitedDelete secretData \<Rightarrow>
             (case serverDecrypt P (data secretData) (ENCRYPTION_KEY env) of
                Inl e \<Rightarrow>
                  (Responded (jsonResponse
                     (ErrorResponse (js ''Failed to retrieve secret'')) 500), kv)
              | Inr clientEncrypted \<Rightarrow>
                  (Responded (jsonResponse (GetSecretResponse clientEncrypted) 200), kv))
         | Responded r \<Rightarrow> (Responded r, kv)))"

fun interleave ::
  "platform \<Rightarrow> Env \<Rightarrow> jsstring list \<Rightarrow> nat list \<Rightarrow> get_pc list \<times> kv_namespace
     \<Rightarrow> get_pc list \<times> kv_namespace" where
  "interleave P env ids [] st = st"
| "interleave P env ids (i # schedule) (pcs, kv) =
     (if i < length pcs \<and> i < length ids
      then (case get_step P env (ids ! i) (pcs ! i, kv) of
              (pc', kv') \<Rightarrow> interleave P env ids schedule (pcs[i := pc'], kv'))
      else interleave P env ids schedule (pcs, kv))"

subsection \<open>Creating a secret: \<^verbatim>\<open>POST\<close> (crypto.ts, lines 226-330)\<close>

text \<open>
  The handler tests \<^verbatim>\<open>body.encryptedData\<close> at run time, so the field is a JavaScript
  value of any type, and \<open>falsy v\<close> is the test \<^verbatim>\<open>!v\<close>; \<^verbatim>\<open>expiresIn\<close> is used as the optional integer number of seconds
  that \<^verbatim>\<open>CreateSecretRequest\<close> declares, \<open>None\<close> when it is absent or \<^verbatim>\<open>null\<close>.
\<close>

datatype js_value =
    JsUndefined | JsNull | JsBoolean bool | JsNumber int | JsString jsstring | JsObject

definition falsy :: "js_value \<Rightarrow> bool" where
  "falsy v =
     (case v of
        JsUndefined \<Rightarrow> True
      | JsNull \<Rightarrow> True
      | JsBoolean b \<Rightarrow> \<not> b
      | JsNumber n \<Rightarrow> n = 0
      | JsString s \<Rightarrow> s = []
      | JsObject \<Rightarrow> False)"

definition typeof :: "js_value \<Rightarrow> string" where
  "typeof v =
     (case v of
        JsUndefined \<Rightarrow> ''undefined''
      | JsNull \<Rightarrow> ''object''
      | JsBoolean b \<Rightarrow> ''boolean''
      | JsNumber n \<Rightarrow> ''number''
      | JsString s \<Rightarrow> ''string''
      | JsObject \<Rightarrow> ''object'')"

definition string_of :: "js_value \<Rightarrow> jsstring" where
  "string_of v = (case v of JsString s \<Rightarrow> s | _ \<Rightarrow> [])"

record CreateSecretRequest =
  encryptedData :: js_value
  expiresIn :: "int option"

text \<open>
  The context of a request: the keys of \<^verbatim>\<open>locals\<close> (line 230), the environment that
  lines 240-241 find in it (\<open>None\<close> when they find none), with its two bindings as the
  handler tests them, and the body that \<^verbatim>\<open>request.json()\<close> returns (\<open>None\<close> when it
  throws, or returns \<^verbatim>\<open>null\<close> so that reading a field throws). The second record holds
  what the handler draws from outside: the identifier from \<^verbatim>\<open>nanoid(8)\<close>, the salt and
  the nonce of \<open>serverEncrypt\<close>, and the two readings of \<^verbatim>\<open>Date.now()\<close> (lines 307 and
  315). A \<^verbatim>\<open>put\<close> on the store is taken to succeed; what the handler writes to the
  console (lines 229-244) is left out.
\<close>

record runtime_env =
  SECRETS_binding :: bool
  ENCRYPTION_KEY_binding :: "jsstring option"

record APIContext =
  localsKeys :: "jsstring list"
  locals_env :: "runtime_env option"
  request_json :: "CreateSecretRequest option"

record creation_inputs =
  nanoid :: jsstring
  random_salt :: "byte list"
  random_iv :: "byte list"
  now_at_store :: int
  now_at_response :: int

definition MIN_EXPIRATION :: int where "MIN_EXPIRATION = 60"
definition MAX_EXPIRATION :: int where "MAX_EXPIRATION = 604800"
definition DEFAULT_EXPIRATION :: int where "DEFAULT_EXPIRATION = 86400"
definition MAX_PAYLOAD_SIZE :: nat where "MAX_PAYLOAD_SIZE = 100 * 1024"

text \<open>\<^verbatim>\<open>localsKeys.join(',')\<close>.\<close>

fun join_comma :: "jsstring list \<Rightarrow> jsstring" where
  "join_comma [] = []"
| "join_comma [k] = k"
| "join_comma (k # k' # ks) = k @ js '','' @ join_comma (k' # ks)"

text \<open>Lines 295-296.\<close>

definition effective_expiration :: "CreateSecretRequest \<Rightarrow> int" where
  "effective_expiration req =
     max MIN_EXPIRATION
       (min MAX_EXPIRATION (case expiresIn req of None \<Rightarrow> DEFAULT_EXPIRATION | Some n \<Rightarrow> n))"

definition POST ::
  "platform \<Rightarrow> APIContext \<Rightarrow> creation_inputs \<Rightarrow> kv_namespace \<Rightarrow> response \<times> kv_namespace" where
  "POST P ctx inp kv =
     (if \<not> (case locals_env ctx of None \<Rightarrow> False | Some env \<Rightarrow> SECRETS_binding env)
      then (jsonResponse
              (ErrorResponse
                 (js ''Server configuration error: KV not bound. Debug: locals keys=[''
                    @ join_comma (localsKeys ctx) @ js '']'')) 500, kv)
      else
        (case (case locals_env ctx of None \<Rightarrow> None | Some env \<Rightarrow> ENCRYPTION_KEY_binding env) of
           None \<Rightarrow>
             (jsonResponse
                (ErrorResponse (js ''Server configuration error: encryption key not set'')) 500, kv)
         | Some masterKey \<Rightarrow>
             if masterKey = []
             then (jsonResponse
                     (ErrorResponse (js ''Server configuration error: encryption key not set''))
                     500, kv)
             else
               (case request_json ctx of
                  None \<Rightarrow> (jsonResponse (ErrorResponse (js ''Failed to create secret'')) 500, kv)
                | Some req \<Rightarrow>
                    if falsy (encryptedData req) \<or> typeof (encryptedData req) \<noteq> ''string''
                    then (jsonResponse
                            (ErrorResponse (js ''Missing or invalid encryptedData'')) 400, kv)
                    else if length (string_of (encryptedData req)) > MAX_PAYLOAD_SIZE
                    then (jsonResponse (ErrorResponse (js ''Payload too large'')) 413, kv)
                    else
                      (let ttl = effective_expiration req;
                           ident = nanoid inp
                       in case serverEncrypt P (random_salt inp) (random_iv inp)
                                 (string_of (encryptedData req)) masterKey of
                            Inl e \<Rightarrow>
                              (jsonResponse (ErrorResponse (js ''Failed to create secret'')) 500, kv)
                          | Inr serverEncrypted \<Rightarrow>
                              (let storageData =
                                     \<lparr>data = serverEncrypted, createdAt = now_at_store inp\<rparr>;
                                   kv' = kv_put (js ''secret:'' @ ident)
                                           (json_stringify P storageData) ttl kv;
                                   expiresAt = now_at_response inp + ttl * 1000
                               in (jsonResponse (CreateSecretResponse ident expiresAt) 201, kv'))))))"

subsection \<open>Sequences of requests and the two layers together\<close>

text \<open>Requests served one after the other, each to completion.\<close>

datatype operation = Retrieve jsstring | Create APIContext creation_inputs

fun run_operations ::
  "platform \<Rightarrow> Env \<Rightarrow> operation list \<Rightarrow> kv_namespace \<Rightarrow> response list \<times> kv_namespace" where
  "run_operations P env [] kv = ([], kv)"
| "run_operations P env (Retrieve ident # ops) kv =
     (case onRequestGet P env ident kv of
        (r, kv') \<Rightarrow> (case run_operations P env ops kv' of (rs, kv'') \<Rightarrow> (r # rs, kv'')))"
| "run_operations P env (Create ctx inp # ops) kv =
     (case POST P ctx inp kv of
        (r, kv') \<Rightarrow> (case run_operations P env ops kv' of (rs, kv'') \<Rightarrow> (r # rs, kv'')))"

text \<open>A plaintext through \<open>encrypt\<close>, \<open>serverEncrypt\<close>, \<open>serverDecrypt\<close> and
  \<open>decrypt\<close>, as the create form, the two handlers and the view page chain them.\<close>

definition two_layer_round_trip ::
  "platform \<Rightarrow> byte list \<Rightarrow> byte list \<Rightarrow> byte list \<Rightarrow> jsstring \<Rightarrow> jsstring \<Rightarrow> jsstring
     \<Rightarrow> js_error + jsstring" where
  "two_layer_round_trip P iv salt iv' p k masterKey =
     (case encrypt P iv p k of
        Inl e \<Rightarrow> Inl e
      | Inr c \<Rightarrow>
          (case serverEncrypt P salt iv' c masterKey of
             Inl e \<Rightarrow> Inl e
           | Inr envelope \<Rightarrow>
               (case serverDecrypt P envelope masterKey of
                  Inl e \<Rightarrow> Inl e
                | Inr c' \<Rightarrow> decrypt P c' k)))"

subsection \<open>An instance of the platform, for examples\<close>

text \<open>
  A cipher that appends a tag of sixteen zero bytes and checks it, a key derivation that
  truncates its inputs, and a record format that puts \<open>createdAt\<close> in the first code
  unit: enough to run the handlers on concrete inputs.
\<close>

definition example_platform :: platform where
  "example_platform =
     \<lparr>aes_gcm_encrypt = (\<lambda>key iv d. d @ replicate 16 0),
      aes_gcm_decrypt = (\<lambda>key iv c.
         if 16 \<le> length c \<and> drop (length c - 16) c = replicate 16 0
         then Some (take (length c - 16) c) else None),
      hkdf_sha256 = (\<lambda>keyMaterial salt info. take 32 (keyMaterial @ salt @ info @ replicate 32 0)),
      json_stringify = (\<lambda>r. of_nat (nat (createdAt r)) # data r),
      json_parse = (\<lambda>text. case text of [] \<Rightarrow> None
                             | c # d \<Rightarrow> Some \<lparr>data = d, createdAt = int (unat c)\<rparr>)\<rparr>"

definition example_env :: Env where
  "example_env = \<lparr>ENCRYPTION_KEY = js ''AAAA''\<rparr>"

definition empty_kv :: kv_namespace where
  "empty_kv = \<lparr>entries = Map.empty, calls = []\<rparr>"

subsection \<open>Predicates and inputs used in the statements\<close>

text \<open>
  A context is \<open>configured\<close> when both bindings pass the tests of lines 255 and 264.
  Among the requests served after a retrieval, \<open>mints_other ident\<close> holds of every
  retrieval and of every creation whose fresh identifier is not \<open>ident\<close>.
  \<open>not_found\<close> is the response of line 51.
\<close>

definition configured :: "APIContext \<Rightarrow> jsstring \<Rightarrow> bool" where
  "configured ctx masterKey =
     (case locals_env ctx of
        None \<Rightarrow> False
      | Some env \<Rightarrow>
          SECRETS_binding env \<and> ENCRYPTION_KEY_binding env = Some masterKey \<and> masterKey \<noteq> [])"

definition mints_other :: "jsstring \<Rightarrow> operation \<Rightarrow> bool" where
  "mints_other ident op =
     (case op of Retrieve i \<Rightarrow> True | Create ctx inp \<Rightarrow> nanoid inp \<noteq> ident)"

definition not_found :: response where
  "not_found = jsonResponse (ErrorResponse (js ''Secret not found or already viewed'')) 404"

text \<open>
  For requests that interleave: a request has \<open>found_absent\<close> when it has not read the
  store yet, has read nothing, or has answered not-found; it is \<open>in_flight\<close> once it has
  passed the check of its identifier without being turned away, and \<open>past_delete\<close> once
  it has deleted the record. \<open>request_ok\<close> says of a request and the store that an
  identifier in flight is well shaped and that the record of a request past its delete
  is gone.
\<close>

definition found_absent :: "get_pc \<Rightarrow> bool" where
  "found_absent pc = (pc = Entry \<or> pc = AwaitedGet None \<or> pc = Responded not_found)"

definition in_flight :: "get_pc \<Rightarrow> bool" where
  "in_flight pc =
     (case pc of
        Entry \<Rightarrow> False
      | AwaitedGet stored \<Rightarrow> True
      | AwaitedDelete secretData \<Rightarrow> True
      | Responded r \<Rightarrow> status r = 200)"

definition past_delete :: "get_pc \<Rightarrow> bool" where
  "past_delete pc =
     (case pc of
        Entry \<Rightarrow> False
      | AwaitedGet stored \<Rightarrow> False
      | AwaitedDelete secretData \<Rightarrow> True
      | Responded r \<Rightarrow> status r = 200)"

definition request_ok :: "kv_namespace \<Rightarrow> jsstring \<times> get_pc \<Rightarrow> bool" where
  "request_ok kv req =
     (case req of (ident, pc) \<Rightarrow>
        (if in_flight pc then 6 \<le> length ident \<and> length ident \<le> 12 else True)
        \<and> (if past_delete pc then entries kv (js ''secret:'' @ ident) = None else True))"

text \<open>
  Concrete inputs: a request context with both bindings present, one with none; the
  values drawn from outside; an envelope that \<open>serverEncrypt\<close> produces for the client
  ciphertext \<^verbatim>\<open>QUJD\<close> under the master key \<^verbatim>\<open>AAAA\<close>, and the same envelope with the
  last bit of its tag flipped; a store holding one record under \<^verbatim>\<open>secret:abcdef\<close>;
  a raw 256-bit key and its base64url form.
\<close>

definition example_context :: "js_value \<Rightarrow> int option \<Rightarrow> APIContext" where
  "example_context v ttl =
     \<lparr>localsKeys = [js ''runtime''],
      locals_env = Some \<lparr>SECRETS_binding = True, ENCRYPTION_KEY_binding = Some (js ''AAAA'')\<rparr>,
      request_json = Some \<lparr>encryptedData = v, expiresIn = ttl\<rparr>\<rparr>"

definition unbound_context :: APIContext where
  "unbound_context =
     \<lparr>localsKeys = [js ''runtime'', js ''session''], locals_env = None, request_json = None\<rparr>"

definition example_inputs :: creation_inputs where
  "example_inputs =
     \<lparr>nanoid = js ''V1StGXR8'', random_salt = replicate 16 1, random_iv = replicate 12 2,
      now_at_store = 1700000000000, now_at_response = 1700000000005\<rparr>"

definition example_envelope :: jsstring where
  "example_envelope = js ''AQEBAQEBAQEBAQEBAQEBAQICAgICAgICAgICAlFVSkQAAAAAAAAAAAAAAAAAAAAA''"

definition tampered_envelope :: jsstring where
  "tampered_envelope = js ''AQEBAQEBAQEBAQEBAQEBAQICAgICAgICAgICAlFVSkQAAAAAAAAAAAAAAAAAAAAB''"

definition example_store :: "jsstring \<Rightarrow> kv_namespace" where
  "example_store text =
     \<lparr>entries = [js ''secret:abcdef'' \<mapsto> \<lparr>kv_value = text, expirationTtl = 3600\<rparr>],
      calls = []\<rparr>"

definition example_raw_key :: "byte list" where
  "example_raw_key = [0, 1, 2, 3, 4, 5, 6, 7, 8, 9, 10, 11, 12, 13, 14, 15, 16, 17, 18, 19, 20,
       21, 22, 23, 24, 25, 26, 27, 28, 29, 30, 31]"

definition example_key :: jsstring where
  "example_key = js ''AAECAwQFBgcICQoLDA0ODxAREhMUFRYXGBkaGxwdHh8''"

section \<open>Auxiliary facts\<close>

subsection \<open>Arithmetic, base64 and the text codec\<close>

lemma div_4096: "(n::nat) div 4096 = n div 64 div 64"
  by (simp add: div_mult2_eq [symmetric])

lemma div_262144: "(n::nat) div 262144 = n div 64 div 64 div 64"
  by (simp add: div_mult2_eq [symmetric])

lemma div_65536: "(n::nat) div 65536 = n div 256 div 256"
  by (simp add: div_mult2_eq [symmetric])

lemma join4:
  "((n div 262144 * 64 + n div 4096 mod 64) * 64 + n div 64 mod 64) * 64 + n mod 64 = (n::nat)"
  by (simp add: div_4096 div_262144)

lemma join3:
  "(n div 4096 * 64 + n div 64 mod 64) * 64 + n mod 64 = (n::nat)"
  by (simp add: div_4096)

lemma div_step: "c < k \<Longrightarrow> (m * k + c) div k = (m::nat)"
  by simp

lemma mod_step: "c < k \<Longrightarrow> (m * k + c) mod k = (c::nat)"
  by simp

lemma split3:
  assumes "b < 256" "c < (256::nat)"
  shows "((a * 256 + b) * 256 + c) div 65536 = a"
    and "((a * 256 + b) * 256 + c) div 256 mod 256 = b"
    and "((a * 256 + b) * 256 + c) mod 256 = c"
proof -
  have d: "((a * 256 + b) * 256 + c) div 256 = a * 256 + b"
    using assms(2) by (rule div_step)
  show "((a * 256 + b) * 256 + c) div 65536 = a"
    unfolding div_65536 d using assms(1) by (rule div_step)
  show "((a * 256 + b) * 256 + c) div 256 mod 256 = b"
    unfolding d using assms(1) by (rule mod_step)
  show "((a * 256 + b) * 256 + c) mod 256 = c"
    using assms(2) by (rule mod_step)
qed

lemma bound3:
  assumes "a < 256" "b < 256" "c < (256::nat)"
  shows "(a * 256 + b) * 256 + c < 16777216"
  using assms by simp

lemma sextet_bounds:
  assumes "(n :: nat) < 16777216"
  shows "n div 262144 < 64" "n div 4096 mod 64 < 64" "n div 64 mod 64 < 64" "n mod 64 < 64"
  using assms by (simp_all add: less_mult_imp_div_less)


lemma unat_of_nat16: "n < 65536 \<Longrightarrow> unat (of_nat n :: 16 word) = n"
  by (simp add: unat_of_nat)

lemma unat_of_nat8: "n < 256 \<Longrightarrow> unat (of_nat n :: 8 word) = n"
  by (simp add: unat_of_nat)

lemma unat_byte_less: "unat (b :: 8 word) < 256"
  using unsigned_less [of b, where 'a = nat] by simp

lemma unat_fromCharCode: "unat (fromCharCode b) = unat b"
  using unat_byte_less [of b]
  by (simp add: fromCharCode_def unsigned_ucast_eq take_bit_nat_eq_self)

lemma byte_of_fromCharCode: "(of_nat (unat (fromCharCode b)) :: 8 word) = b"
  by (simp only: unat_fromCharCode) simp

lemma charCodeAt_fromCharCode: "charCodeAt_u8 (fromCharCode b) = b"
  using unat_byte_less [of b] by (simp add: charCodeAt_u8_def unat_fromCharCode)

lemma btoa_binary: "btoa (map fromCharCode bs) = Inr (b64_encode bs)"
proof -
  have "list_all (\<lambda>c. unat c \<le> 255) (map fromCharCode bs)"
    using unat_byte_less by (simp add: list_all_iff unat_fromCharCode less_Suc_eq_le [symmetric])
  moreover have "map (\<lambda>c. of_nat (unat c)) (map fromCharCode bs) = bs"
    unfolding map_map comp_def by (simp only: byte_of_fromCharCode) simp
  ultimately show ?thesis by (simp add: btoa_def)
qed

lemma arrayBufferToBase64_eq: "arrayBufferToBase64 bs = Inr (b64_encode bs)"
  by (simp add: arrayBufferToBase64_def btoa_binary)

lemma unat_b64_char:
  "n < 64 \<Longrightarrow> unat (b64_char n) =
     (if n < 26 then 65 + n else if n < 52 then 71 + n
      else if n < 62 then n - 4 else if n = 62 then 43 else 47)"
  by (simp add: b64_char_def unat_of_nat16 del: of_nat_add of_nat_diff)

lemma b64_val_char: "n < 64 \<Longrightarrow> b64_val (b64_char n) = Some n"
  unfolding b64_val_def Let_def by (simp add: unat_b64_char; arith)

lemma b64_char_neq:
  assumes "n < 64" and "k \<in> {9, 10, 12, 13, 32, 45, 61, 95}"
  shows "b64_char n \<noteq> of_nat k"
proof
  assume "b64_char n = of_nat k"
  then have "unat (b64_char n) = unat (of_nat k :: 16 word)" by simp
  with assms show False
    by (auto simp add: unat_b64_char split: if_splits)
qed


lemma sextets_less: "list_all (\<lambda>n. n < 64) (sextets bs)"
proof (induction bs rule: sextets.induct)
  case (1 a b c rest)
  have "(unat a * 256 + unat b) * 256 + unat c < 16777216"
    using unat_byte_less [of a] unat_byte_less [of b] unat_byte_less [of c] by (rule bound3)
  from sextet_bounds [OF this] 1 show ?case by (simp add: Let_def)
next
  case (2 a b)
  have "(unat a * 256 + unat b) * 4 < 262144"
    using unat_byte_less [of a] unat_byte_less [of b] by simp
  then show ?case by (simp add: Let_def less_mult_imp_div_less)
next
  case (3 a)
  have "unat a * 16 < 4096" using unat_byte_less [of a] by simp
  then show ?case by (simp add: Let_def less_mult_imp_div_less)
qed simp

lemma length_sextets: "length (sextets bs) = (4 * length bs + 2) div 3"
  by (induction bs rule: sextets.induct) (simp_all add: Let_def)

lemma octets_sextets: "octets (sextets bs) = bs"
proof (induction bs rule: sextets.induct)
  case (1 a b c rest)
  define n where "n = (unat a * 256 + unat b) * 256 + unat c"
  have abc: "n div 65536 = unat a" "n div 256 mod 256 = unat b" "n mod 256 = unat c"
    unfolding n_def using unat_byte_less [of b] unat_byte_less [of c] by (rule split3)+
  have "octets (sextets (a # b # c # rest)) =
      of_nat (n div 65536) # of_nat (n div 256 mod 256) # of_nat (n mod 256) # octets (sextets rest)"
    by (simp only: sextets.simps octets.simps Let_def n_def [symmetric] join4)
  then show ?case by (simp only: abc 1) simp
next
  case (2 a b)
  define n where "n = (unat a * 256 + unat b) * 4"
  have n4: "n div 4 = unat a * 256 + unat b" by (simp add: n_def)
  have ab: "n div 4 div 256 = unat a" "n div 4 mod 256 = unat b"
    unfolding n4 using unat_byte_less [of b] by (rule div_step mod_step)+
  have "octets (sextets [a, b]) = [of_nat (n div 4 div 256), of_nat (n div 4 mod 256)]"
    by (simp only: sextets.simps octets.simps Let_def n_def [symmetric] join3)
  then show ?case by (simp only: ab) simp
next
  case (3 a)
  define n where "n = unat a * 16"
  have "octets (sextets [a]) = [of_nat ((n div 64 * 64 + n mod 64) div 16)]"
    by (simp only: sextets.simps octets.simps Let_def n_def [symmetric])
  also have "(n div 64 * 64 + n mod 64) div 16 = unat a"
    by (simp only: div_mult_mod_eq) (simp add: n_def)
  finally show ?case by simp
qed simp

lemma b64_vals_chars:
  "list_all (\<lambda>n. n < 64) ns \<Longrightarrow> map (\<lambda>c. the (b64_val c)) (map b64_char ns) = ns"
  by (induction ns) (simp_all add: b64_val_char)

lemma b64_chars_valid:
  "list_all (\<lambda>n. n < 64) ns \<Longrightarrow> \<not> list_ex (\<lambda>c. b64_val c = None) (map b64_char ns)"
  by (induction ns) (simp_all add: b64_val_char)

lemma b64_chars_no_ws:
  "list_all (\<lambda>n. n < 64) ns \<Longrightarrow>
     filter (\<lambda>c. \<not> ascii_whitespace c) (map b64_char ns) = map b64_char ns"
proof (induction ns)
  case (Cons n ns)
  then have n: "n < 64" by simp
  have "\<not> ascii_whitespace (b64_char n)"
    using b64_char_neq [OF n, of 9] b64_char_neq [OF n, of 10] b64_char_neq [OF n, of 12]
      b64_char_neq [OF n, of 13] b64_char_neq [OF n, of 32]
    by (simp add: ascii_whitespace_def)
  with Cons show ?case by simp
qed simp

lemma b64_padding_cases:
  "b64_padding bs = [] \<and> length (sextets bs) mod 4 = 0
   \<or> b64_padding bs = [61] \<and> length (sextets bs) mod 4 = 3
   \<or> b64_padding bs = [61, 61] \<and> length (sextets bs) mod 4 = 2"
  by (induction bs rule: sextets.induct) (simp_all add: Let_def)

lemma strip_padding_encoded:
  assumes "list_all (\<lambda>c. c \<noteq> 61) chars"
    and "p = [] \<and> length chars mod 4 = 0 \<or> p = [61] \<and> length chars mod 4 = 3
         \<or> p = [61, 61] \<and> length chars mod 4 = 2"
  shows "strip_padding (chars @ p) = chars"
proof -
  consider "p = []" "length chars mod 4 = 0" | "p = [61]" "length chars mod 4 = 3"
    | "p = [61, 61]" "length chars mod 4 = 2"
    using assms(2) by auto
  then show ?thesis
  proof cases
    case 1
    show ?thesis
    proof (cases "rev chars")
      case Nil
      then show ?thesis using 1 by (simp add: strip_padding_def)
    next
      case (Cons e1 r)
      then have b: "chars = rev r @ [e1]" by (simp add: rev_swap)
      with assms(1) have e1: "e1 \<noteq> 61" by simp
      show ?thesis using 1 e1 unfolding b
        by (cases r) (simp_all add: strip_padding_def)
    qed
  next
    case 2
    then have "chars \<noteq> []" by auto
    then obtain r e where b: "chars = r @ [e]" by (metis rev_exhaust)
    with assms(1) have e: "e \<noteq> 61" by simp
    have "length (chars @ p) mod 4 = 0" using 2 by (simp add: mod_Suc)
    then show ?thesis using 2(1) e unfolding b by (simp add: strip_padding_def)
  next
    case 3
    have "length (chars @ p) mod 4 = 0" using 3 by (simp add: mod_Suc)
    then show ?thesis using 3(1) by (simp add: strip_padding_def)
  qed
qed

lemma b64_chars_no_eq:
  "list_all (\<lambda>n. n < 64) ns \<Longrightarrow> list_all (\<lambda>c. c \<noteq> 61) (map b64_char ns)"
proof (induction ns)
  case (Cons n ns)
  then have n: "n < 64" by simp
  from b64_char_neq [OF n, of 61] Cons show ?case by simp
qed simp

lemma b64_padding_no_ws:
  "filter (\<lambda>c. \<not> ascii_whitespace c) (b64_padding bs) = b64_padding bs"
  by (induction bs rule: b64_padding.induct) (simp_all add: ascii_whitespace_def)

lemma filter_ws_encoded:
  "filter (\<lambda>c. \<not> ascii_whitespace c) (b64_encode bs) = b64_encode bs"
  by (simp add: b64_encode_def b64_chars_no_ws [OF sextets_less] b64_padding_no_ws)

lemma atob_b64_encode: "atob (b64_encode bs) = Inr (map fromCharCode bs)"
proof -
  let ?chars = "map b64_char (sextets bs)"
  have s: "strip_padding (b64_encode bs) = ?chars"
    unfolding b64_encode_def
    using b64_padding_cases [of bs]
    by (intro strip_padding_encoded [OF b64_chars_no_eq [OF sextets_less]]) simp
  have l: "length ?chars mod 4 \<noteq> 1" using b64_padding_cases [of bs] by auto
  show ?thesis
    unfolding atob_def filter_ws_encoded s Let_def
    using l b64_chars_valid [OF sextets_less, of bs]
    by (simp add: b64_vals_chars [OF sextets_less] octets_sextets del: map_map)
qed

lemma base64ToArrayBuffer_encode: "base64ToArrayBuffer (b64_encode bs) = Inr bs"
  unfolding base64ToArrayBuffer_def atob_b64_encode
  by (simp add: comp_def charCodeAt_fromCharCode)

lemma b64_padding_replace: "replace_all a b (b64_padding bs) = b64_padding bs" if "a \<noteq> 61"
  using that by (induction bs rule: b64_padding.induct) (simp_all add: replace_all_def)

lemma replace_all_append: "replace_all a b (xs @ ys) = replace_all a b xs @ replace_all a b ys"
  by (simp add: replace_all_def)

lemma strip_trailing_eq_padding:
  "list_all (\<lambda>c. c \<noteq> 61) chars \<Longrightarrow> strip_trailing_eq (chars @ b64_padding bs) = chars"
proof -
  assume chars: "list_all (\<lambda>c. c \<noteq> 61) chars"
  have p: "dropWhile (\<lambda>c. c = 61) (rev (b64_padding bs) @ ys) = dropWhile (\<lambda>c. c = 61) ys" for ys
    by (induction bs rule: b64_padding.induct) simp_all
  have "dropWhile (\<lambda>c. c = 61) (rev chars) = rev chars"
    using chars by (cases "rev chars") (auto simp add: list_all_iff rev_swap)
  then show ?thesis by (simp add: strip_trailing_eq_def p)
qed

lemma to_url: "replace_all 47 95 (replace_all 43 45 s) = map url_char s"
  by (simp add: replace_all_def url_char_def)

lemma from_url_b64_char:
  assumes "n < 64"
  shows "(if (if url_char (b64_char n) = 45 then 43 else url_char (b64_char n)) = 95 then 47
          else (if url_char (b64_char n) = 45 then 43 else url_char (b64_char n))) = b64_char n"
  using b64_char_neq [OF assms, of 45] b64_char_neq [OF assms, of 95]
  by (simp add: url_char_def)

lemma from_url:
  "list_all (\<lambda>n. n < 64) ns \<Longrightarrow>
     replace_all 95 47 (replace_all 45 43 (map url_char (map b64_char ns))) = map b64_char ns"
  by (induction ns) (simp_all add: replace_all_def from_url_b64_char)

lemma url_char_no_eq:
  "list_all (\<lambda>n. n < 64) ns \<Longrightarrow> list_all (\<lambda>c. c \<noteq> 61) (map url_char (map b64_char ns))"
proof (induction ns)
  case (Cons n ns)
  then have n: "n < 64" by simp
  from b64_char_neq [OF n, of 61] Cons show ?case by (simp add: url_char_def)
qed simp

lemma arrayBufferToBase64url_eq:
  "arrayBufferToBase64url bs = Inr (map url_char (map b64_char (sextets bs)))"
proof -
  have "map url_char (b64_encode bs) = map url_char (map b64_char (sextets bs)) @ b64_padding bs"
    unfolding b64_encode_def map_append to_url [symmetric]
    by (simp add: b64_padding_replace)
  then show ?thesis
    unfolding arrayBufferToBase64url_def arrayBufferToBase64_eq
    by (simp add: to_url strip_trailing_eq_padding [OF url_char_no_eq [OF sextets_less]] del: map_map)
qed

lemma repad:
  "(if length (sextets bs) mod 4 \<noteq> 0
    then map b64_char (sextets bs) @ replicate (4 - length (sextets bs) mod 4) 61
    else map b64_char (sextets bs)) = b64_encode bs"
  using b64_padding_cases [of bs]
  by (auto simp add: b64_encode_def numeral_2_eq_2)

lemma base64url_roundtrip:
  "arrayBufferToBase64url bs = Inr s \<Longrightarrow> base64urlToArrayBuffer s = Inr bs"
proof -
  assume "arrayBufferToBase64url bs = Inr s"
  then have s: "s = map url_char (map b64_char (sextets bs))"
    by (simp add: arrayBufferToBase64url_eq)
  show ?thesis
    unfolding base64urlToArrayBuffer_def s from_url [OF sextets_less] Let_def
    by (simp only: length_map repad base64ToArrayBuffer_encode)
qed

lemma mod_add_left: "r < k \<Longrightarrow> (j * k + r) mod k = (r::nat)"
  by simp

lemma decode1:
  assumes "cp < 128"
  shows "utf8_decode 0 0 0 128 191 (utf8_bytes cp @ rest) = cp # utf8_decode 0 0 0 128 191 rest"
proof -
  have b: "unat (of_nat cp :: byte) = cp" using assms by (simp add: unat_of_nat8)
  show ?thesis using assms by (simp add: utf8_bytes_def b)
qed

lemma decode2:
  assumes "128 \<le> cp" "cp < 2048"
  shows "utf8_decode 0 0 0 128 191 (utf8_bytes cp @ rest) = cp # utf8_decode 0 0 0 128 191 rest"
proof -
  define u l where "u = cp div 64" and "l = cp mod 64"
  have cp: "cp = u * 64 + l" by (simp add: u_def l_def)
  have l: "l < 64" by (simp add: l_def)
  have u: "2 \<le> u" "u < 32" using assms cp l by simp_all
  have bytes: "utf8_bytes cp = [of_nat (192 + u), of_nat (128 + l)]"
    using assms by (simp add: utf8_bytes_def u_def l_def del: of_nat_add)
  have b1: "unat (of_nat (192 + u) :: byte) = 192 + u"
    using u by (intro unat_of_nat8) simp
  have b2: "unat (of_nat (128 + l) :: byte) = 128 + l"
    using l by (intro unat_of_nat8) simp
  have m1: "(192 + u) mod 32 = u" using mod_add_left [of u 32 6] u by simp
  have m2: "(128 + l) mod 64 = l" using mod_add_left [of l 64 2] l by simp
  show ?thesis
    unfolding bytes using u l
    by (simp add: b1 b2 m1 m2 cp del: of_nat_add)
qed

lemma decode3:
  assumes "2048 \<le> cp" "cp < 65536" "\<not> (55296 \<le> cp \<and> cp \<le> 57343)"
  shows "utf8_decode 0 0 0 128 191 (utf8_bytes cp @ rest) = cp # utf8_decode 0 0 0 128 191 rest"
proof -
  define u m l where "u = cp div 4096" and "m = cp div 64 mod 64" and "l = cp mod 64"
  have cp: "cp = (u * 64 + m) * 64 + l"
    unfolding u_def m_def l_def by (rule join3 [symmetric])
  have ml: "m < 64" "l < 64" by (simp_all add: m_def l_def)
  have u: "u < 16" using assms cp ml by simp
  have bytes: "utf8_bytes cp = [of_nat (224 + u), of_nat (128 + m), of_nat (128 + l)]"
    using assms by (simp add: utf8_bytes_def u_def m_def l_def del: of_nat_add)
  have b1: "unat (of_nat (224 + u) :: byte) = 224 + u"
    using u by (intro unat_of_nat8) simp
  have b2: "unat (of_nat (128 + m) :: byte) = 128 + m"
    using ml by (intro unat_of_nat8) simp
  have b3: "unat (of_nat (128 + l) :: byte) = 128 + l"
    using ml by (intro unat_of_nat8) simp
  have m1: "(224 + u) mod 16 = u" using mod_add_left [of u 16 14] u by simp
  have m2: "(128 + m) mod 64 = m" using mod_add_left [of m 64 2] ml by simp
  have m3: "(128 + l) mod 64 = l" using mod_add_left [of l 64 2] ml by simp
  have lo: "u = 0 \<Longrightarrow> 32 \<le> m" using assms(1) cp ml by simp
  have hi: "u = 13 \<Longrightarrow> m < 32" using assms(3) cp ml by simp
  show ?thesis
    unfolding bytes using u ml lo hi cp
    by (auto simp add: b1 b2 b3 m1 m2 m3 simp del: of_nat_add)
qed

lemma decode4:
  assumes "65536 \<le> cp" "cp < 1114112"
  shows "utf8_decode 0 0 0 128 191 (utf8_bytes cp @ rest) = cp # utf8_decode 0 0 0 128 191 rest"
proof -
  define u k m l where "u = cp div 262144" and "k = cp div 4096 mod 64"
    and "m = cp div 64 mod 64" and "l = cp mod 64"
  have cp: "cp = ((u * 64 + k) * 64 + m) * 64 + l"
    unfolding u_def k_def m_def l_def by (rule join4 [symmetric])
  have ml: "k < 64" "m < 64" "l < 64" by (simp_all add: k_def m_def l_def)
  have u: "u < 5" using assms cp ml by simp
  have bytes: "utf8_bytes cp =
      [of_nat (240 + u), of_nat (128 + k), of_nat (128 + m), of_nat (128 + l)]"
    using assms by (simp add: utf8_bytes_def u_def k_def m_def l_def del: of_nat_add)
  have b1: "unat (of_nat (240 + u) :: byte) = 240 + u"
    using u by (intro unat_of_nat8) simp
  have b2: "unat (of_nat (128 + k) :: byte) = 128 + k"
    using ml by (intro unat_of_nat8) simp
  have b3: "unat (of_nat (128 + m) :: byte) = 128 + m"
    using ml by (intro unat_of_nat8) simp
  have b4: "unat (of_nat (128 + l) :: byte) = 128 + l"
    using ml by (intro unat_of_nat8) simp
  have m1: "(240 + u) mod 8 = u" using mod_add_left [of u 8 30] u by simp
  have m2: "(128 + k) mod 64 = k" using mod_add_left [of k 64 2] ml by simp
  have m3: "(128 + m) mod 64 = m" using mod_add_left [of m 64 2] ml by simp
  have m4: "(128 + l) mod 64 = l" using mod_add_left [of l 64 2] ml by simp
  have lo: "u = 0 \<Longrightarrow> 16 \<le> k" using assms(1) cp ml by simp
  have hi: "u = 4 \<Longrightarrow> k < 16" using assms(2) cp ml by simp
  show ?thesis
    unfolding bytes using u ml lo hi cp
    by (auto simp add: b1 b2 b3 b4 m1 m2 m3 m4 simp del: of_nat_add)
qed

lemma unat_unit_less: "unat (c :: 16 word) < 65536"
  using unsigned_less [of c, where 'a = nat] by simp

lemma decode_scalar:
  assumes "is_scalar cp"
  shows "utf8_decode 0 0 0 128 191 (utf8_bytes cp @ rest) = cp # utf8_decode 0 0 0 128 191 rest"
proof -
  consider "cp < 128" | "128 \<le> cp" "cp < 2048" | "2048 \<le> cp" "cp < 65536" | "65536 \<le> cp"
    by linarith
  then show ?thesis
  proof cases
    case 1 then show ?thesis by (rule decode1)
  next
    case 2 then show ?thesis by (rule decode2)
  next
    case 3 with assms show ?thesis by (intro decode3) (simp_all add: is_scalar_def)
  next
    case 4 with assms show ?thesis by (intro decode4) (simp_all add: is_scalar_def)
  qed
qed

lemma decode_encoded:
  "list_all is_scalar cps \<Longrightarrow> utf8_decode 0 0 0 128 191 (concat (map utf8_bytes cps)) = cps"
  by (induction cps) (simp_all add: decode_scalar)

lemma pair_scalar:
  assumes "is_high_surrogate c" "is_low_surrogate d"
  shows "is_scalar (65536 + (unat c - 55296) * 1024 + (unat d - 56320))"
  using assms unfolding is_scalar_def is_high_surrogate_def is_low_surrogate_def by arith

lemma unit_scalar:
  assumes "\<not> is_high_surrogate c" "\<not> is_low_surrogate c"
  shows "is_scalar (unat c)"
  using assms unat_unit_less [of c]
  by (auto simp add: is_scalar_def is_high_surrogate_def is_low_surrogate_def)

lemma code_points_scalar: "isWellFormed s \<Longrightarrow> list_all is_scalar (code_points s)"
  by (induction s rule: isWellFormed.induct)
     (auto simp add: pair_scalar unit_scalar split: if_splits)

lemma utf16_pair:
  assumes "is_high_surrogate c" "is_low_surrogate d"
  shows "utf16_units (65536 + (unat c - 55296) * 1024 + (unat d - 56320)) = [c, d]"
proof -
  define h l where "h = unat c - 55296" and "l = unat d - 56320"
  have l: "l < 1024" using assms(2) unfolding l_def is_low_surrogate_def by arith
  have c: "55296 + h = unat c" using assms(1) unfolding h_def is_high_surrogate_def by arith
  have d: "56320 + l = unat d" using assms(2) unfolding l_def is_low_surrogate_def by arith
  have dv: "(h * 1024 + l) div 1024 = h" using l by (rule div_step)
  have md: "(h * 1024 + l) mod 1024 = l" using l by (rule mod_step)
  have "utf16_units (65536 + h * 1024 + l) =
      [of_nat (55296 + (h * 1024 + l) div 1024), of_nat (56320 + (h * 1024 + l) mod 1024)]"
    by (simp add: utf16_units_def del: of_nat_add)
  then show ?thesis
    unfolding dv md c d h_def [symmetric] l_def [symmetric] by simp
qed

lemma utf16_unit: "utf16_units (unat c) = [c]"
  using unat_unit_less [of c] by (simp add: utf16_units_def)

lemma utf16_code_points: "isWellFormed s \<Longrightarrow> concat (map utf16_units (code_points s)) = s"
  by (induction s rule: isWellFormed.induct)
     (auto simp add: utf16_pair utf16_unit split: if_splits)

lemma bom_not_surrogate: "c = 65279 \<Longrightarrow> \<not> is_high_surrogate c \<and> \<not> is_low_surrogate c"
  by (simp add: is_high_surrogate_def is_low_surrogate_def)

lemma unat_eq_bom: "unat (c :: 16 word) = 65279 \<longleftrightarrow> c = 65279"
proof
  assume "unat c = 65279"
  then have "of_nat (unat c) = (of_nat 65279 :: 16 word)" by simp
  then show "c = 65279" by simp
next
  assume "c = 65279"
  then show "unat c = 65279" by simp
qed

lemma code_points_Cons:
  "code_points (c # s) \<noteq> []"
  by (cases s) simp_all

lemma code_points_bom: "code_points (65279 # s) = 65279 # code_points s"
  by (cases s) (simp_all add: is_high_surrogate_def is_low_surrogate_def)

lemma wellformed_bom: "isWellFormed (65279 # s) = isWellFormed s"
  by (cases s) (simp_all add: is_high_surrogate_def is_low_surrogate_def)

lemma hd_code_points:
  "c \<noteq> 65279 \<Longrightarrow> isWellFormed (c # s) \<Longrightarrow> strip_bom (code_points (c # s)) = code_points (c # s)"
proof (cases s)
  case Nil
  assume "c \<noteq> 65279" "isWellFormed (c # s)"
  then show ?thesis using Nil by (simp add: strip_bom_def unat_eq_bom)
next
  case (Cons d cs)
  assume "c \<noteq> 65279" "isWellFormed (c # s)"
  then show ?thesis using Cons
    by (auto simp add: strip_bom_def unat_eq_bom split: if_splits)
qed

lemma text_codec:
  assumes "isWellFormed s"
  shows "TextDecoder_decode (TextEncoder_encode s) =
           (case s of [] \<Rightarrow> [] | c # rest \<Rightarrow> if c = 65279 then rest else s)"
proof (cases s)
  case Nil
  then show ?thesis by (simp add: TextDecoder_decode_def TextEncoder_encode_def strip_bom_def)
next
  case (Cons c rest)
  have dec: "utf8_decode 0 0 0 128 191 (TextEncoder_encode s) = code_points s"
    unfolding TextEncoder_encode_def by (rule decode_encoded [OF code_points_scalar [OF assms]])
  show ?thesis
  proof (cases "c = 65279")
    case True
    with assms Cons have wf: "isWellFormed rest" by (simp add: wellformed_bom)
    show ?thesis
      unfolding TextDecoder_decode_def dec
      using True Cons by (simp add: code_points_bom strip_bom_def utf16_code_points [OF wf])
  next
    case False
    from hd_code_points [OF False] assms Cons
    have "strip_bom (code_points s) = code_points s" by simp
    then have "TextDecoder_decode (TextEncoder_encode s) = s"
      unfolding TextDecoder_decode_def dec by (simp add: utf16_code_points [OF assms])
    then show ?thesis using False Cons by simp
  qed
qed

subsection \<open>The handlers\<close>

lemma effective_expiration_cases:
  "effective_expiration req =
     (case expiresIn req of
        None \<Rightarrow> 86400
      | Some n \<Rightarrow> if n < 60 then 60 else if 604800 < n then 604800 else n)"
  by (simp add: effective_expiration_def MIN_EXPIRATION_def MAX_EXPIRATION_def
      DEFAULT_EXPIRATION_def split: option.splits)

lemma POST_configured:
  assumes "configured ctx masterKey" and "request_json ctx = Some req"
  shows "POST P ctx inp kv =
     (if falsy (encryptedData req) \<or> typeof (encryptedData req) \<noteq> ''string''
      then (jsonResponse (ErrorResponse (js ''Missing or invalid encryptedData'')) 400, kv)
      else if length (string_of (encryptedData req)) > MAX_PAYLOAD_SIZE
      then (jsonResponse (ErrorResponse (js ''Payload too large'')) 413, kv)
      else
        (case serverEncrypt P (random_salt inp) (random_iv inp)
                (string_of (encryptedData req)) masterKey of
           Inl e \<Rightarrow> (jsonResponse (ErrorResponse (js ''Failed to create secret'')) 500, kv)
         | Inr serverEncrypted \<Rightarrow>
             (jsonResponse
                (CreateSecretResponse (nanoid inp)
                   (now_at_response inp + effective_expiration req * 1000)) 201,
              kv_put (js ''secret:'' @ nanoid inp)
                (json_stringify P \<lparr>data = serverEncrypted, createdAt = now_at_store inp\<rparr>)
                (effective_expiration req) kv)))"
proof -
  from assms(1) obtain e where e: "locals_env ctx = Some e" "SECRETS_binding e"
      "ENCRYPTION_KEY_binding e = Some masterKey" "masterKey \<noteq> []"
    by (auto simp add: configured_def split: option.splits)
  show ?thesis unfolding POST_def by (simp add: e assms(2) Let_def split: sum.split)
qed

lemma serverEncrypt_eq:
  "base64ToArrayBuffer masterKey = Inr keyMaterial \<Longrightarrow>
     serverEncrypt P salt iv d masterKey =
       Inr (b64_encode (salt @ iv @
              aes_gcm_encrypt P (hkdf_sha256 P keyMaterial salt hkdf_info) iv (TextEncoder_encode d)))"
  by (simp add: serverEncrypt_def arrayBufferToBase64_eq)

lemma onRequestGet_present:
  assumes "6 \<le> length ident" and "length ident \<le> 12"
    and "entries kv (js ''secret:'' @ ident) = Some e" and "kv_value e \<noteq> []"
    and "json_parse P (kv_value e) = Some secretData"
  shows "onRequestGet P env ident kv =
     (case serverDecrypt P (data secretData) (ENCRYPTION_KEY env) of
        Inl err \<Rightarrow> jsonResponse (ErrorResponse (js ''Failed to retrieve secret'')) 500
      | Inr clientEncrypted \<Rightarrow> jsonResponse (GetSecretResponse clientEncrypted) 200,
      kv_delete (js ''secret:'' @ ident) (snd (kv_get (js ''secret:'' @ ident) kv)))"
proof -
  from assms(1) have "ident \<noteq> []" by auto
  with assms show ?thesis
    by (simp add: onRequestGet_def kv_get_def Let_def split: sum.split)
qed

lemma onRequestGet_absent:
  assumes "6 \<le> length ident" and "length ident \<le> 12"
    and "entries kv (js ''secret:'' @ ident) = None"
  shows "onRequestGet P env ident kv =
     (jsonResponse (ErrorResponse (js ''Secret not found or already viewed'')) 404,
      kv\<lparr>calls := calls kv @ [KvGet (js ''secret:'' @ ident)]\<rparr>)"
proof -
  from assms(1) have "ident \<noteq> []" by auto
  with assms show ?thesis by (simp add: onRequestGet_def kv_get_def Let_def)
qed

lemma onRequestGet_keeps_absent:
  "entries kv k = None \<Longrightarrow> entries (snd (onRequestGet P env i kv)) k = None"
  by (simp add: onRequestGet_def kv_get_def kv_delete_def Let_def
      split: option.split sum.split)

lemma onRequestGet_success:
  assumes "onRequestGet P env ident kv = (r, kv')" and "status r = 200"
  shows "6 \<le> length ident \<and> length ident \<le> 12 \<and> entries kv' (js ''secret:'' @ ident) = None"
  using assms
  by (auto simp add: onRequestGet_def kv_get_def kv_delete_def jsonResponse_def Let_def
      split: option.splits sum.splits if_splits)

lemma POST_keeps_absent:
  assumes "nanoid inp \<noteq> ident" and "entries kv (js ''secret:'' @ ident) = None"
  shows "entries (snd (POST P ctx inp kv)) (js ''secret:'' @ ident) = None"
proof -
  have "entries (kv_put (js ''secret:'' @ nanoid inp) v ttl kv) (js ''secret:'' @ ident) = None"
    for v ttl
    using assms by (simp add: kv_put_def)
  then show ?thesis
    using assms(2)
    by (simp add: POST_def Let_def split: option.split sum.split)
qed

lemma absent_forever:
  assumes "6 \<le> length ident" and "length ident \<le> 12"
  shows "entries kv (js ''secret:'' @ ident) = None \<Longrightarrow> list_all (mints_other ident) ops \<Longrightarrow>
     list_all (\<lambda>(op, r). op = Retrieve ident \<longrightarrow> r = not_found)
       (zip ops (fst (run_operations P env ops kv)))"
proof (induction ops arbitrary: kv)
  case Nil
  then show ?case by simp
next
  case (Cons op ops)
  show ?case
  proof (cases op)
    case (Retrieve i)
    obtain r kv' where g: "onRequestGet P env i kv = (r, kv')" by (cases "onRequestGet P env i kv")
    have abs: "entries kv' (js ''secret:'' @ ident) = None"
      using onRequestGet_keeps_absent [OF Cons.prems(1), of P env i] g by simp
    have here: "i = ident \<Longrightarrow> r = not_found"
      using onRequestGet_absent [OF assms Cons.prems(1), of P env] g
      by (simp add: not_found_def)
    from Cons.IH [OF abs] Cons.prems(2) here show ?thesis
      by (auto simp add: Retrieve g split: prod.splits)
  next
    case (Create ctx inp)
    obtain r kv' where p: "POST P ctx inp kv = (r, kv')" by (cases "POST P ctx inp kv")
    from Cons.prems(2) have "nanoid inp \<noteq> ident" by (simp add: Create mints_other_def)
    from POST_keeps_absent [OF this Cons.prems(1), of P ctx] p
    have abs: "entries kv' (js ''secret:'' @ ident) = None" by simp
    from Cons.IH [OF abs] Cons.prems(2) show ?thesis
      by (auto simp add: Create p split: prod.splits)
  qed
qed

lemma get_step_sequential:
  "get_step P env ident (get_step P env ident (get_step P env ident (Entry, kv)))
     = (Responded (fst (onRequestGet P env ident kv)), snd (onRequestGet P env ident kv))"
  by (simp add: get_step_def onRequestGet_def kv_get_def Let_def
      split: option.split sum.split)

lemma POST_invalid_leaves_store:
  assumes "request_json ctx = Some req"
    and "falsy (encryptedData req) \<or> typeof (encryptedData req) \<noteq> ''string''
         \<or> length (string_of (encryptedData req)) > MAX_PAYLOAD_SIZE"
  shows "snd (POST P ctx inp kv) = kv \<and> (\<exists>m. body (fst (POST P ctx inp kv)) = ErrorResponse m)"
  using assms
  by (auto simp add: POST_def jsonResponse_def split: option.split)

lemma length_run_operations_aux:
  "run_operations P env ops kv = (rs, kv') \<Longrightarrow> length rs = length ops"
proof (induction ops arbitrary: kv rs kv')
  case Nil
  then show ?case by simp
next
  case (Cons op ops)
  then show ?case by (cases op) (auto split: prod.splits)
qed

lemma length_run_operations: "length (fst (run_operations P env ops kv)) = length ops"
  by (cases "run_operations P env ops kv") (simp add: length_run_operations_aux)

lemma get_step_keeps_absent:
  "entries kv k = None \<Longrightarrow> entries (snd (get_step P env i (pc, kv))) k = None"
  by (cases pc)
     (auto simp add: get_step_def kv_get_def kv_delete_def Let_def
        split: option.split sum.split)

lemma get_step_found_absent:
  assumes "6 \<le> length ident" and "length ident \<le> 12"
    and "entries kv (js ''secret:'' @ ident) = None" and "found_absent pc"
  shows "found_absent (fst (get_step P env ident (pc, kv)))"
proof -
  from assms(1) have "ident \<noteq> []" by auto
  with assms show ?thesis
    by (auto simp add: found_absent_def get_step_def kv_get_def Let_def not_found_def)
qed

lemma get_step_request_ok:
  assumes "request_ok kv (ident, pc)"
  shows "request_ok (snd (get_step P env ident (pc, kv)))
           (ident, fst (get_step P env ident (pc, kv)))"
  using assms
  by (cases pc)
     (auto simp add: request_ok_def in_flight_def past_delete_def get_step_def kv_get_def
        kv_delete_def Let_def jsonResponse_def split: option.splits sum.splits if_splits)

lemma get_step_other_ok:
  assumes "request_ok kv (ident, pc)"
  shows "request_ok (snd (get_step P env i (pc', kv))) (ident, pc)"
  using assms get_step_keeps_absent [of kv "js ''secret:'' @ ident" P env i pc']
  by (auto simp add: request_ok_def split: if_splits)

lemma interleave_keeps_absent:
  "entries kv k = None \<Longrightarrow> entries (snd (interleave P env ids schedule (pcs, kv))) k = None"
proof (induction schedule arbitrary: pcs kv)
  case Nil
  then show ?case by simp
next
  case (Cons i schedule)
  show ?case
  proof (cases "i < length pcs \<and> i < length ids")
    case True
    obtain pc' kv' where s: "get_step P env (ids ! i) (pcs ! i, kv) = (pc', kv')"
      by (cases "get_step P env (ids ! i) (pcs ! i, kv)")
    from get_step_keeps_absent [OF Cons.prems, of P env "ids ! i" "pcs ! i"] s
    have "entries kv' k = None" by simp
    from Cons.IH [OF this] True s show ?thesis by simp
  next
    case False
    with Cons.IH [OF Cons.prems] show ?thesis by auto
  qed
qed

lemma interleave_found_absent:
  assumes "6 \<le> length ident" and "length ident \<le> 12"
  shows "entries kv (js ''secret:'' @ ident) = None \<Longrightarrow> j < length pcs \<Longrightarrow> j < length ids \<Longrightarrow>
     ids ! j = ident \<Longrightarrow> found_absent (pcs ! j) \<Longrightarrow>
     found_absent (fst (interleave P env ids schedule (pcs, kv)) ! j)"
proof (induction schedule arbitrary: pcs kv)
  case Nil
  then show ?case by simp
next
  case (Cons i schedule)
  show ?case
  proof (cases "i < length pcs \<and> i < length ids")
    case True
    obtain pc' kv' where s: "get_step P env (ids ! i) (pcs ! i, kv) = (pc', kv')"
      by (cases "get_step P env (ids ! i) (pcs ! i, kv)")
    from get_step_keeps_absent [OF Cons.prems(1), of P env "ids ! i" "pcs ! i"] s
    have a: "entries kv' (js ''secret:'' @ ident) = None" by simp
    have f: "found_absent (pcs[i := pc'] ! j)"
    proof (cases "i = j")
      case True
      from get_step_found_absent [OF assms Cons.prems(1,5), of P env] s True Cons.prems(2,4)
      show ?thesis by simp
    next
      case False
      with Cons.prems(5) show ?thesis by simp
    qed
    from Cons.IH [OF a _ Cons.prems(3,4) f] Cons.prems(2) True s show ?thesis by simp
  next
    case False
    with Cons.IH [OF Cons.prems] show ?thesis by auto
  qed
qed

lemma interleave_length:
  "length (fst (interleave P env ids schedule (pcs, kv))) = length pcs"
proof (induction schedule arbitrary: pcs kv)
  case Nil
  then show ?case by simp
next
  case (Cons i schedule)
  then show ?case by (auto split: prod.splits)
qed

lemma interleave_requests_ok:
  "\<forall>n. n < length pcs \<and> n < length ids \<longrightarrow> request_ok kv (ids ! n, pcs ! n) \<Longrightarrow>
   interleave P env ids schedule (pcs, kv) = (pcs', kv') \<Longrightarrow>
   \<forall>n. n < length pcs \<and> n < length ids \<longrightarrow> request_ok kv' (ids ! n, pcs' ! n)"
proof (induction schedule arbitrary: pcs kv)
  case Nil
  then show ?case by simp
next
  case (Cons i schedule)
  show ?case
  proof (cases "i < length pcs \<and> i < length ids")
    case True
    obtain pc1 kv1 where s: "get_step P env (ids ! i) (pcs ! i, kv) = (pc1, kv1)"
      by (cases "get_step P env (ids ! i) (pcs ! i, kv)")
    have ok: "\<forall>n. n < length (pcs[i := pc1]) \<and> n < length ids \<longrightarrow>
        request_ok kv1 (ids ! n, pcs[i := pc1] ! n)"
    proof (intro allI impI)
      fix n assume n: "n < length (pcs[i := pc1]) \<and> n < length ids"
      with Cons.prems(1) have before: "request_ok kv (ids ! n, pcs ! n)" by simp
      show "request_ok kv1 (ids ! n, pcs[i := pc1] ! n)"
      proof (cases "n = i")
        case True
        with get_step_request_ok [OF before, of P env] s n show ?thesis by simp
      next
        case False
        with get_step_other_ok [OF before, of P env "ids ! i" "pcs ! i"] s show ?thesis by simp
      qed
    qed
    from Cons.prems(2) True s
    have "interleave P env ids schedule (pcs[i := pc1], kv1) = (pcs', kv')" by simp
    from Cons.IH [OF ok this] show ?thesis by simp
  next
    case False
    with Cons.prems(2) have "interleave P env ids schedule (pcs, kv) = (pcs', kv')" by auto
    from Cons.IH [OF Cons.prems(1) this] show ?thesis .
  qed
qed

subsection \<open>The two encryption layers\<close>

lemma unat_b64_char_less: "n < 64 \<Longrightarrow> unat (b64_char n) < 128"
  by (simp add: unat_b64_char; arith)

lemma b64_chars_ascii:
  "list_all (\<lambda>n. n < 64) ns \<Longrightarrow> list_all (\<lambda>c. unat c < 128) (map b64_char ns)"
  by (induction ns) (simp_all add: unat_b64_char_less)

lemma b64_padding_ascii: "list_all (\<lambda>c. unat c < 128) (b64_padding bs)"
  by (induction bs rule: b64_padding.induct) simp_all

lemma b64_encode_ascii: "list_all (\<lambda>c. unat c < 128) (b64_encode bs)"
  by (simp add: b64_encode_def b64_chars_ascii [OF sextets_less] b64_padding_ascii)

lemma ascii_not_surrogate:
  "unat c < 128 \<Longrightarrow> \<not> is_high_surrogate c \<and> \<not> is_low_surrogate c \<and> c \<noteq> 65279"
  by (auto simp add: is_high_surrogate_def is_low_surrogate_def)

lemma ascii_wellformed: "list_all (\<lambda>c. unat c < 128) s \<Longrightarrow> isWellFormed s"
  by (induction s rule: isWellFormed.induct) (simp_all add: ascii_not_surrogate)

lemma ascii_codec:
  assumes "list_all (\<lambda>c. unat c < 128) s"
  shows "TextDecoder_decode (TextEncoder_encode s) = s"
proof (cases s)
  case Nil
  then show ?thesis using text_codec [of s] by simp
next
  case (Cons c rest)
  with assms have "c \<noteq> 65279" by (simp add: ascii_not_surrogate)
  with Cons text_codec [OF ascii_wellformed [OF assms]] show ?thesis by simp
qed

lemma encrypt_eq:
  "importKey k = Inr rawKey \<Longrightarrow>
     encrypt P iv p k = Inr (b64_encode (iv @ aes_gcm_encrypt P rawKey iv (TextEncoder_encode p)))"
  by (simp add: encrypt_def arrayBufferToBase64_eq)

lemma decrypt_encrypted:
  assumes "aead_correct P" and "length iv = 12" and "importKey k = Inr rawKey"
  shows "decrypt P (b64_encode (iv @ aes_gcm_encrypt P rawKey iv d)) k
           = Inr (TextDecoder_decode d)"
  using assms
  by (simp add: decrypt_def base64ToArrayBuffer_encode IV_LENGTH_def aead_correct_def)

lemma serverDecrypt_encrypted:
  assumes "aead_correct P" and "length salt = 16" and "length iv = 12"
    and "base64ToArrayBuffer masterKey = Inr keyMaterial"
  shows "serverDecrypt P
           (b64_encode (salt @ iv @
              aes_gcm_encrypt P (hkdf_sha256 P keyMaterial salt hkdf_info) iv d)) masterKey
         = Inr (TextDecoder_decode d)"
  using assms
  by (simp add: serverDecrypt_def base64ToArrayBuffer_encode aead_correct_def)

lemma two_layer_round_trip_eq:
  assumes "aead_correct P" and "length iv = 12" and "length salt = 16" and "length iv' = 12"
    and "importKey k = Inr rawKey" and "base64ToArrayBuffer masterKey = Inr keyMaterial"
  shows "two_layer_round_trip P iv salt iv' p k masterKey
           = Inr (TextDecoder_decode (TextEncoder_encode p))"
proof -
  let ?c = "b64_encode (iv @ aes_gcm_encrypt P rawKey iv (TextEncoder_encode p))"
  have again: "TextDecoder_decode (TextEncoder_encode ?c) = ?c"
    by (rule ascii_codec [OF b64_encode_ascii])
  show ?thesis
    unfolding two_layer_round_trip_def encrypt_eq [OF assms(5)] serverEncrypt_eq [OF assms(6)]
      sum.case serverDecrypt_encrypted [OF assms(1,3,4,6)] again
    by (rule decrypt_encrypted [OF assms(1,2,5)])
qed

subsection \<open>The concrete inputs evaluated\<close>

lemma replicate_16: "replicate 16 x = [x, x, x, x, x, x, x, x, x, x, x, x, x, x, x, x]"
  by (simp add: eval_nat_numeral)

lemma replicate_12: "replicate 12 x = [x, x, x, x, x, x, x, x, x, x, x, x]"
  by (simp add: eval_nat_numeral)

lemmas eval_defs = serverDecrypt_def base64ToArrayBuffer_def atob_def strip_padding_def
  ascii_whitespace_def b64_val_def Let_def js_def charCodeAt_u8_def fromCharCode_def
  example_platform_def TextDecoder_decode_def strip_bom_def utf16_units_def

lemma base64_AAAA: "base64ToArrayBuffer (js ''AAAA'') = Inr [0, 0, 0]"
  by (simp add: base64ToArrayBuffer_def atob_def strip_padding_def ascii_whitespace_def
      b64_val_def Let_def js_def charCodeAt_u8_def fromCharCode_def)

lemma decrypt_example_envelope:
  "serverDecrypt example_platform example_envelope (js ''AAAA'') = Inr (js ''QUJD'')"
  by (simp add: eval_defs example_envelope_def replicate_16)

lemma decrypt_tampered_envelope:
  "serverDecrypt example_platform tampered_envelope (js ''AAAA'') = Inl OperationError"
  by (simp add: eval_defs tampered_envelope_def replicate_16)

lemma example_key_generated: "arrayBufferToBase64url example_raw_key = Inr example_key"
  by (simp add: arrayBufferToBase64url_eq Let_def b64_char_def url_char_def
      js_def example_raw_key_def example_key_def)

lemma example_key_imported: "importKey example_key = Inr example_raw_key"
proof -
  have "length example_raw_key = 32" by (simp add: example_raw_key_def)
  then show ?thesis
    by (simp add: importKey_def base64url_roundtrip [OF example_key_generated])
qed

lemma example_aead_correct: "aead_correct example_platform"
  by (simp add: aead_correct_def example_platform_def)

lemma example_first_retrieval:
  "onRequestGet example_platform example_env (js ''abcdef'') (example_store (1 # example_envelope))
   = (jsonResponse (GetSecretResponse (js ''QUJD'')) 200,
      \<lparr>entries = Map.empty,
       calls = [KvGet (js ''secret:abcdef''), KvDelete (js ''secret:abcdef'')]\<rparr>)"
proof -
  have e: "entries (example_store (1 # example_envelope)) (js ''secret:'' @ js ''abcdef'')
      = Some \<lparr>kv_value = 1 # example_envelope, expirationTtl = 3600\<rparr>"
    by (simp add: example_store_def js_def)
  have p: "json_parse example_platform
        (kv_value \<lparr>kv_value = 1 # example_envelope, expirationTtl = 3600\<rparr>)
      = Some \<lparr>data = example_envelope, createdAt = 1\<rparr>"
    by (simp add: example_platform_def)
  have l: "6 \<le> length (js ''abcdef'')" "length (js ''abcdef'') \<le> 12" by (simp_all add: js_def)
  have d: "serverDecrypt example_platform example_envelope (ENCRYPTION_KEY example_env)
      = Inr (js ''QUJD'')"
    by (simp add: example_env_def decrypt_example_envelope)
  show ?thesis
    unfolding onRequestGet_present [OF l e _ p, simplified] d
    by (simp add: kv_delete_def kv_get_def example_store_def js_def)
qed

lemma example_tampered_retrieval:
  "onRequestGet example_platform example_env (js ''abcdef'') (example_store (1 # tampered_envelope))
   = (jsonResponse (ErrorResponse (js ''Failed to retrieve secret'')) 500,
      \<lparr>entries = Map.empty,
       calls = [KvGet (js ''secret:abcdef''), KvDelete (js ''secret:abcdef'')]\<rparr>)"
proof -
  have e: "entries (example_store (1 # tampered_envelope)) (js ''secret:'' @ js ''abcdef'')
      = Some \<lparr>kv_value = 1 # tampered_envelope, expirationTtl = 3600\<rparr>"
    by (simp add: example_store_def js_def)
  have p: "json_parse example_platform
        (kv_value \<lparr>kv_value = 1 # tampered_envelope, expirationTtl = 3600\<rparr>)
      = Some \<lparr>data = tampered_envelope, createdAt = 1\<rparr>"
    by (simp add: example_platform_def)
  have l: "6 \<le> length (js ''abcdef'')" "length (js ''abcdef'') \<le> 12" by (simp_all add: js_def)
  have d: "serverDecrypt example_platform tampered_envelope (ENCRYPTION_KEY example_env)
      = Inl OperationError"
    by (simp add: example_env_def decrypt_tampered_envelope)
  show ?thesis
    unfolding onRequestGet_present [OF l e _ p, simplified] d
    by (simp add: kv_delete_def kv_get_def example_store_def js_def)
qed

section \<open>The claims\<close>

subsection \<open>C1: concurrent retrievals\<close>

text \<open>
  Served one after the other, two retrievals of a stored identifier give one success and
  one not-found. Interleaved at the \<^verbatim>\<open>await\<close>s they can both succeed: the handler reads
  the record (line 48) and deletes it (line 62) in two separate calls on the store, and a
  second request that reads between the two finds the record still there.
\<close>

lemma sequential_retrievals:
  assumes "6 \<le> length ident" and "length ident \<le> 12"
    and "entries kv (js ''secret:'' @ ident) = Some e" and "kv_value e \<noteq> []"
    and "json_parse P (kv_value e) = Some secretData"
    and "serverDecrypt P (data secretData) (ENCRYPTION_KEY env) = Inr c"
  shows "fst (interleave P env [ident, ident] [0, 0, 0, 1, 1, 1] ([Entry, Entry], kv))
     = [Responded (jsonResponse (GetSecretResponse c) 200), Responded not_found]"
proof -
  from assms(1) have "ident \<noteq> []" by auto
  with assms show ?thesis
    by (simp add: get_step_def kv_get_def kv_delete_def Let_def not_found_def)
qed

lemma interleaved_retrievals:
  assumes "6 \<le> length ident" and "length ident \<le> 12"
    and "entries kv (js ''secret:'' @ ident) = Some e" and "kv_value e \<noteq> []"
    and "json_parse P (kv_value e) = Some secretData"
    and "serverDecrypt P (data secretData) (ENCRYPTION_KEY env) = Inr c"
  shows "fst (interleave P env [ident, ident] [0, 1, 0, 1, 0, 1] ([Entry, Entry], kv))
     = [Responded (jsonResponse (GetSecretResponse c) 200),
        Responded (jsonResponse (GetSecretResponse c) 200)]"
proof -
  from assms(1) have "ident \<noteq> []" by auto
  with assms show ?thesis
    by (simp add: get_step_def kv_get_def kv_delete_def Let_def)
qed

text \<open>
  C1. The claim: two or more concurrent retrievals of one identifier yield exactly one
  success and not-found for all the others. The handler does not meet it: with the
  record of \<open>example_store\<close> under \<^verbatim>\<open>secret:abcdef\<close> and two requests for \<^verbatim>\<open>abcdef\<close>
  that alternate step by step, both read the record before either deletes it, and both
  answer 200 with the same ciphertext.
\<close>

theorem concurrent_retrievals_both_succeed:
  "interleave example_platform example_env [js ''abcdef'', js ''abcdef''] [0, 1, 0, 1, 0, 1]
     ([Entry, Entry], example_store (1 # example_envelope))
   = ([Responded (jsonResponse (GetSecretResponse (js ''QUJD'')) 200),
       Responded (jsonResponse (GetSecretResponse (js ''QUJD'')) 200)],
      \<lparr>entries = Map.empty,
       calls = [KvGet (js ''secret:abcdef''), KvGet (js ''secret:abcdef''),
                KvDelete (js ''secret:abcdef''), KvDelete (js ''secret:abcdef'')]\<rparr>)"
proof -
  have p: "json_parse example_platform (1 # example_envelope)
      = Some \<lparr>data = example_envelope, createdAt = 1\<rparr>"
    by (simp add: example_platform_def)
  have d: "serverDecrypt example_platform example_envelope (ENCRYPTION_KEY example_env)
      = Inr (js ''QUJD'')"
    by (simp add: example_env_def decrypt_example_envelope)
  have l: "length (js ''abcdef'') = 6" "js ''abcdef'' \<noteq> []" by (simp_all add: js_def)
  have k: "js ''secret:'' @ js ''abcdef'' = js ''secret:abcdef''" by (simp add: js_def)
  show ?thesis
    by (simp add: get_step_def kv_get_def kv_delete_def p d l k example_store_def Let_def)
qed

subsection \<open>C2: a delivered secret stays gone\<close>

text \<open>
  C2. After a retrieval of an identifier has succeeded, every later retrieval of that
  identifier finds the record absent and answers not-found: whatever requests are served
  afterwards, one after the other (retrievals of any identifier, and creations, whose
  fresh identifier is another one), each retrieval of the delivered identifier among
  them returns the not-found response.
\<close>

theorem delivered_is_terminal:
  assumes "onRequestGet P env ident kv = (r, kv')" and "status r = 200"
    and "list_all (mints_other ident) ops"
  shows "entries kv' (js ''secret:'' @ ident) = None
     \<and> length (fst (run_operations P env ops kv')) = length ops
     \<and> list_all (\<lambda>(op, r'). op = Retrieve ident \<longrightarrow> r' = not_found)
         (zip ops (fst (run_operations P env ops kv')))"
proof -
  from onRequestGet_success [OF assms(1,2)]
  have len: "6 \<le> length ident" "length ident \<le> 12"
    and abs: "entries kv' (js ''secret:'' @ ident) = None" by simp_all
  from absent_forever [OF len abs assms(3)] abs show ?thesis
    by (simp add: length_run_operations)
qed

theorem delivered_is_terminal_witness:
  "fst (run_operations example_platform example_env
          [Retrieve (js ''abcdef''), Retrieve (js ''ghijkl''),
           Create (example_context (JsString (js ''x'')) None) example_inputs,
           Retrieve (js ''abcdef'')]
          \<lparr>entries = Map.empty,
           calls = [KvGet (js ''secret:abcdef''), KvDelete (js ''secret:abcdef'')]\<rparr>) ! 0
     = not_found
   \<and> fst (run_operations example_platform example_env
          [Retrieve (js ''abcdef''), Retrieve (js ''ghijkl''),
           Create (example_context (JsString (js ''x'')) None) example_inputs,
           Retrieve (js ''abcdef'')]
          \<lparr>entries = Map.empty,
           calls = [KvGet (js ''secret:abcdef''), KvDelete (js ''secret:abcdef'')]\<rparr>) ! 3
     = not_found"
proof -
  let ?ops = "[Retrieve (js ''abcdef''), Retrieve (js ''ghijkl''),
           Create (example_context (JsString (js ''x'')) None) example_inputs,
           Retrieve (js ''abcdef'')]"
  have m: "list_all (mints_other (js ''abcdef'')) ?ops"
    by (simp add: mints_other_def example_inputs_def js_def)
  have s: "status (jsonResponse (GetSecretResponse (js ''QUJD'')) 200) = 200"
    by (simp add: jsonResponse_def)
  from delivered_is_terminal [OF example_first_retrieval s m]
  show ?thesis
    by (auto simp add: split: prod.splits)
qed

text \<open>
  The same holds when requests interleave. Start any number of retrievals and run them
  under any schedule; if at some point one of them has answered 200 and another, for the
  same identifier, has not started yet, then under every continuation the second one
  reads nothing and never answers anything but not-found.
\<close>

lemma late_retrieval_finds_nothing:
  assumes "interleave P env ids earlier (replicate n Entry, kv) = (pcs, kv')"
    and "i < n" and "i < length ids" and "pcs ! i = Responded r" and "status r = 200"
    and "j < n" and "j < length ids" and "ids ! j = ids ! i" and "pcs ! j = Entry"
  shows "found_absent (fst (interleave P env ids later (pcs, kv')) ! j)"
proof -
  have len: "length pcs = n"
    using interleave_length [of P env ids earlier "replicate n Entry" kv] assms(1) by simp
  have "\<forall>m. m < length (replicate n Entry) \<and> m < length ids \<longrightarrow>
      request_ok kv (ids ! m, replicate n Entry ! m)"
    by (simp add: request_ok_def in_flight_def past_delete_def)
  from interleave_requests_ok [OF this assms(1)] assms(2,3)
  have "request_ok kv' (ids ! i, pcs ! i)" by simp
  with assms(4,5)
  have v: "6 \<le> length (ids ! i)" "length (ids ! i) \<le> 12"
    and a: "entries kv' (js ''secret:'' @ ids ! i) = None"
    by (simp_all add: request_ok_def in_flight_def past_delete_def)
  have f: "found_absent (pcs ! j)" by (simp add: assms(9) found_absent_def)
  from interleave_found_absent [OF v a _ assms(7,8) f, of P env later] assms(6) len
  show ?thesis by simp
qed

subsection \<open>C3: a retrieval that fails after finding the record\<close>

text \<open>
  C3 as stated, a retrieval that finds the record and then fails leaves it in the store,
  does not hold: with a stored envelope whose tag has one bit flipped, the retrieval
  answers 500, the record that was there is gone, and the next retrieval answers
  not-found.
\<close>

theorem record_kept_on_failure_counterexample:
  "fst (onRequestGet example_platform example_env (js ''abcdef'')
          (example_store (1 # tampered_envelope)))
     = jsonResponse (ErrorResponse (js ''Failed to retrieve secret'')) 500
   \<and> entries (example_store (1 # tampered_envelope)) (js ''secret:abcdef'')
     = Some \<lparr>kv_value = 1 # tampered_envelope, expirationTtl = 3600\<rparr>
   \<and> entries (snd (onRequestGet example_platform example_env (js ''abcdef'')
                     (example_store (1 # tampered_envelope)))) (js ''secret:abcdef'')
     = None
   \<and> fst (onRequestGet example_platform example_env (js ''abcdef'')
            (snd (onRequestGet example_platform example_env (js ''abcdef'')
                    (example_store (1 # tampered_envelope)))))
     = not_found"
proof -
  have l: "6 \<le> length (js ''abcdef'')" "length (js ''abcdef'') \<le> 12" by (simp_all add: js_def)
  have a: "entries \<lparr>entries = Map.empty,
       calls = [KvGet (js ''secret:abcdef''), KvDelete (js ''secret:abcdef'')]\<rparr>
       (js ''secret:'' @ js ''abcdef'') = None" by simp
  show ?thesis
    unfolding example_tampered_retrieval fst_conv snd_conv onRequestGet_absent [OF l a]
    by (simp add: example_store_def not_found_def)
qed

text \<open>
  C3, amended. A retrieval with a well-shaped identifier that finds a non-empty stored
  text deletes the record as soon as the text parses, before it decrypts the envelope
  (line 62 comes before line 65): the record is gone from the store whether the
  decryption then succeeds (200) or fails (500), and the next retrieval answers
  not-found. Only a stored text that does not parse leaves the store as it was.
\<close>

theorem record_deleted_before_decryption:
  assumes "6 \<le> length ident" and "length ident \<le> 12"
    and "entries kv (js ''secret:'' @ ident) = Some e" and "kv_value e \<noteq> []"
  shows "case json_parse P (kv_value e) of
           None \<Rightarrow>
             entries (snd (onRequestGet P env ident kv)) = entries kv
             \<and> fst (onRequestGet P env ident kv)
                 = jsonResponse (ErrorResponse (js ''Failed to retrieve secret'')) 500
         | Some secretData \<Rightarrow>
             entries (snd (onRequestGet P env ident kv)) = (entries kv)(js ''secret:'' @ ident := None)
             \<and> calls (snd (onRequestGet P env ident kv))
                 = calls kv @ [KvGet (js ''secret:'' @ ident), KvDelete (js ''secret:'' @ ident)]
             \<and> fst (onRequestGet P env ident kv)
                 = (case serverDecrypt P (data secretData) (ENCRYPTION_KEY env) of
                      Inl err \<Rightarrow> jsonResponse (ErrorResponse (js ''Failed to retrieve secret'')) 500
                    | Inr c \<Rightarrow> jsonResponse (GetSecretResponse c) 200)
             \<and> fst (onRequestGet P env ident (snd (onRequestGet P env ident kv))) = not_found"
proof (cases "json_parse P (kv_value e)")
  case None
  from assms(1) have "ident \<noteq> []" by auto
  with assms None show ?thesis
    by (simp add: onRequestGet_def kv_get_def Let_def)
next
  case (Some secretData)
  note p = onRequestGet_present [OF assms Some]
  have a: "entries (snd (onRequestGet P env ident kv)) (js ''secret:'' @ ident) = None"
    unfolding p by (simp add: kv_delete_def kv_get_def)
  show ?thesis
    unfolding Some option.case onRequestGet_absent [OF assms(1,2) a]
    by (simp add: p kv_delete_def kv_get_def not_found_def)
qed

theorem record_deleted_before_decryption_witness:
  "entries (snd (onRequestGet example_platform example_env (js ''abcdef'')
                   (example_store (1 # example_envelope)))) = Map.empty
   \<and> calls (snd (onRequestGet example_platform example_env (js ''abcdef'')
                   (example_store (1 # example_envelope))))
       = [KvGet (js ''secret:abcdef''), KvDelete (js ''secret:abcdef'')]
   \<and> fst (onRequestGet example_platform example_env (js ''abcdef'')
            (example_store (1 # example_envelope)))
       = jsonResponse (GetSecretResponse (js ''QUJD'')) 200
   \<and> fst (onRequestGet example_platform example_env (js ''abcdef'')
            (snd (onRequestGet example_platform example_env (js ''abcdef'')
                    (example_store (1 # example_envelope)))))
       = not_found"
proof -
  have e: "entries (example_store (1 # example_envelope)) (js ''secret:'' @ js ''abcdef'')
      = Some \<lparr>kv_value = 1 # example_envelope, expirationTtl = 3600\<rparr>"
    by (simp add: example_store_def js_def)
  have l: "6 \<le> length (js ''abcdef'')" "length (js ''abcdef'') \<le> 12" by (simp_all add: js_def)
  have n: "kv_value \<lparr>kv_value = 1 # example_envelope, expirationTtl = 3600\<rparr> \<noteq> []" by simp
  have p: "json_parse example_platform
        (kv_value \<lparr>kv_value = 1 # example_envelope, expirationTtl = 3600\<rparr>)
      = Some \<lparr>data = example_envelope, createdAt = 1\<rparr>"
    by (simp add: example_platform_def)
  have d: "serverDecrypt example_platform example_envelope (ENCRYPTION_KEY example_env)
      = Inr (js ''QUJD'')"
    by (simp add: example_env_def decrypt_example_envelope)
  from record_deleted_before_decryption [OF l e n, of example_platform example_env]
  show ?thesis
    unfolding p option.case by (simp add: d example_store_def js_def)
qed

subsection \<open>C4: the two-layer round trip\<close>

text \<open>
  C4 as stated, the round trip recovers every plaintext, does not hold. A plaintext that
  is a surrogate without its partner comes back as U+FFFD, since UTF-8 has no encoding
  of a lone surrogate and \<^verbatim>\<open>TextEncoder\<close> replaces it; and the plaintext of the two
  code units U+FEFF and \<^verbatim>\<open>A\<close> comes back as \<^verbatim>\<open>A\<close> alone, since \<^verbatim>\<open>new TextDecoder()\<close>
  drops a leading byte order mark.
\<close>

theorem round_trip_counterexample:
  "two_layer_round_trip example_platform (replicate 12 7) (replicate 16 1) (replicate 12 2)
      [55296] example_key (js ''AAAA'') = Inr [65533]
   \<and> two_layer_round_trip example_platform (replicate 12 7) (replicate 16 1) (replicate 12 2)
      [65279, 65] example_key (js ''AAAA'') = Inr [65]"
proof -
  have "isWellFormed [65279, 65]"
    by (simp add: is_high_surrogate_def is_low_surrogate_def)
  from text_codec [OF this]
  have bom: "TextDecoder_decode (TextEncoder_encode [65279, 65]) = [65]" by simp
  have enc: "TextEncoder_encode [55296] = [239, 191, 189]"
    by (simp add: TextEncoder_encode_def is_high_surrogate_def utf8_bytes_def)
  have lone: "TextDecoder_decode (TextEncoder_encode [55296]) = [65533]"
    unfolding enc by (simp add: TextDecoder_decode_def strip_bom_def utf16_units_def)
  show ?thesis
    by (simp add: bom lone two_layer_round_trip_eq [OF example_aead_correct _ _ _
          example_key_imported base64_AAAA])
qed

text \<open>
  C4, amended. Let the cipher be correct (decryption inverts encryption), the nonces be
  12 bytes and the salt 16 bytes long, the client key be one that \<open>importKey\<close> accepts
  and the master key be base64. Then for every well-formed plaintext \<open>p\<close> that does not
  begin with U+FEFF the four steps succeed and return \<open>p\<close>: \<open>encrypt\<close> gives a
  ciphertext \<open>c\<close>, \<open>serverEncrypt\<close> an envelope, \<open>serverDecrypt\<close> of the envelope gives
  \<open>c\<close> again, and \<open>decrypt\<close> of \<open>c\<close> gives \<open>p\<close>.
\<close>

theorem round_trip_recovers_plaintext:
  assumes "aead_correct P" and "length iv = 12" and "length salt = 16" and "length iv' = 12"
    and "importKey k = Inr rawKey" and "base64ToArrayBuffer masterKey = Inr keyMaterial"
    and "isWellFormed p" and "take 1 p \<noteq> [65279]"
  shows "two_layer_round_trip P iv salt iv' p k masterKey = Inr p
     \<and> (\<exists>c envelope.
           encrypt P iv p k = Inr c
         \<and> serverEncrypt P salt iv' c masterKey = Inr envelope
         \<and> serverDecrypt P envelope masterKey = Inr c
         \<and> decrypt P c k = Inr p)"
proof -
  let ?c = "b64_encode (iv @ aes_gcm_encrypt P rawKey iv (TextEncoder_encode p))"
  let ?e = "b64_encode (salt @ iv' @
      aes_gcm_encrypt P (hkdf_sha256 P keyMaterial salt hkdf_info) iv' (TextEncoder_encode ?c))"
  have p: "TextDecoder_decode (TextEncoder_encode p) = p"
    using text_codec [OF assms(7)] assms(8) by (cases p) simp_all
  have c: "TextDecoder_decode (TextEncoder_encode ?c) = ?c"
    by (rule ascii_codec [OF b64_encode_ascii])
  have 1: "encrypt P iv p k = Inr ?c" by (rule encrypt_eq [OF assms(5)])
  have 2: "serverEncrypt P salt iv' ?c masterKey = Inr ?e" by (rule serverEncrypt_eq [OF assms(6)])
  have 3: "serverDecrypt P ?e masterKey = Inr ?c"
    using serverDecrypt_encrypted [OF assms(1,3,4,6), of "TextEncoder_encode ?c"] c by simp
  have 4: "decrypt P ?c k = Inr p"
    using decrypt_encrypted [OF assms(1,2,5), of "TextEncoder_encode p"] p by simp
  from 1 2 3 4 show ?thesis
    unfolding two_layer_round_trip_def by simp
qed

theorem round_trip_recovers_plaintext_witness:
  "two_layer_round_trip example_platform (replicate 12 7) (replicate 16 1) (replicate 12 2)
      (js ''hello'') example_key (js ''AAAA'') = Inr (js ''hello'')"
proof -
  have w: "isWellFormed (js ''hello'')" "take 1 (js ''hello'') \<noteq> [65279]"
    by (simp_all add: js_def is_high_surrogate_def is_low_surrogate_def)
  have l: "length (replicate 12 (7 :: byte)) = 12" "length (replicate 16 (1 :: byte)) = 16"
    "length (replicate 12 (2 :: byte)) = 12" by simp_all
  from round_trip_recovers_plaintext [OF example_aead_correct l example_key_imported
      base64_AAAA w]
  show ?thesis by simp
qed

subsection \<open>C5: the time to live is clamped\<close>

text \<open>
  C5. For a request that passes validation, the time to live is 86400 when \<open>expiresIn\<close>
  is omitted, 60 for a value below 60, 604800 for a value above 604800 and the value
  itself otherwise; the request is not rejected for its \<open>expiresIn\<close> (the response is
  201), the record is stored with the clamped value as its \<open>expirationTtl\<close>, and the
  returned \<open>expiresAt\<close> is the clock reading plus the clamped value, in milliseconds.
\<close>

theorem ttl_clamped:
  assumes "configured ctx masterKey" and "request_json ctx = Some req"
    and "encryptedData req = JsString s" and "s \<noteq> []" and "length s \<le> MAX_PAYLOAD_SIZE"
    and "base64ToArrayBuffer masterKey = Inr keyMaterial"
  shows "effective_expiration req =
           (case expiresIn req of
              None \<Rightarrow> 86400
            | Some n \<Rightarrow> if n < 60 then 60 else if 604800 < n then 604800 else n)
     \<and> fst (POST P ctx inp kv) =
           jsonResponse
             (CreateSecretResponse (nanoid inp)
                (now_at_response inp + effective_expiration req * 1000)) 201
     \<and> snd (POST P ctx inp kv) =
           kv_put (js ''secret:'' @ nanoid inp)
             (json_stringify P
                \<lparr>data = b64_encode (random_salt inp @ random_iv inp @
                     aes_gcm_encrypt P
                       (hkdf_sha256 P keyMaterial (random_salt inp) hkdf_info) (random_iv inp)
                       (TextEncoder_encode s)),
                 createdAt = now_at_store inp\<rparr>)
             (effective_expiration req) kv
     \<and> map_option expirationTtl (entries (snd (POST P ctx inp kv)) (js ''secret:'' @ nanoid inp))
           = Some (effective_expiration req)"
proof -
  have p: "POST P ctx inp kv =
     (jsonResponse
        (CreateSecretResponse (nanoid inp)
           (now_at_response inp + effective_expiration req * 1000)) 201,
      kv_put (js ''secret:'' @ nanoid inp)
        (json_stringify P
           \<lparr>data = b64_encode (random_salt inp @ random_iv inp @
                aes_gcm_encrypt P
                  (hkdf_sha256 P keyMaterial (random_salt inp) hkdf_info) (random_iv inp)
                  (TextEncoder_encode s)),
            createdAt = now_at_store inp\<rparr>)
        (effective_expiration req) kv)"
    using assms(3-5)
    by (simp add: POST_configured [OF assms(1,2)] serverEncrypt_eq [OF assms(6)]
        falsy_def typeof_def string_of_def)
  show ?thesis
    unfolding p by (simp add: effective_expiration_cases kv_put_def)
qed

theorem ttl_clamped_witness:
  "effective_expiration \<lparr>encryptedData = JsString (js ''x''), expiresIn = Some 999999999\<rparr> = 604800
   \<and> fst (POST example_platform (example_context (JsString (js ''x'')) (Some 999999999))
             example_inputs empty_kv)
       = jsonResponse (CreateSecretResponse (js ''V1StGXR8'') 1700604800005) 201
   \<and> map_option expirationTtl
        (entries (snd (POST example_platform (example_context (JsString (js ''x'')) (Some 999999999))
                         example_inputs empty_kv)) (js ''secret:V1StGXR8'')) = Some 604800
   \<and> effective_expiration \<lparr>encryptedData = JsString (js ''x''), expiresIn = Some 1\<rparr> = 60
   \<and> fst (POST example_platform (example_context (JsString (js ''x'')) (Some 1))
             example_inputs empty_kv)
       = jsonResponse (CreateSecretResponse (js ''V1StGXR8'') 1700000060005) 201
   \<and> map_option expirationTtl
        (entries (snd (POST example_platform (example_context (JsString (js ''x'')) (Some 1))
                         example_inputs empty_kv)) (js ''secret:V1StGXR8'')) = Some 60
   \<and> effective_expiration \<lparr>encryptedData = JsString (js ''x''), expiresIn = None\<rparr> = 86400
   \<and> fst (POST example_platform (example_context (JsString (js ''x'')) None)
             example_inputs empty_kv)
       = jsonResponse (CreateSecretResponse (js ''V1StGXR8'') 1700086400005) 201"
proof -
  have c: "configured (example_context (JsString (js ''x'')) t) (js ''AAAA'')" for t
    by (simp add: configured_def example_context_def js_def)
  have r: "request_json (example_context (JsString (js ''x'')) t)
      = Some \<lparr>encryptedData = JsString (js ''x''), expiresIn = t\<rparr>" for t
    by (simp add: example_context_def)
  have x: "js ''x'' \<noteq> []" "length (js ''x'') \<le> MAX_PAYLOAD_SIZE"
    by (simp_all add: js_def MAX_PAYLOAD_SIZE_def)
  note w = ttl_clamped [OF c r _ x base64_AAAA, of _ example_platform example_inputs empty_kv]
  from w [of "Some 999999999"] w [of "Some 1"] w [of None]
  show ?thesis by (auto simp add: example_inputs_def js_def)
qed

subsection \<open>C6: the shape of the identifier\<close>

text \<open>
  C6. An identifier shorter than 6 or longer than 12 is rejected with status 400 and
  the store is returned as it was, no call made on it; an identifier of length 6 to 12
  passes the check: the response is not the 400, and the next call on the store is the
  \<^verbatim>\<open>get\<close> of \<^verbatim>\<open>secret:<id>\<close>.
\<close>

theorem id_shape_gate:
  "(length ident < 6 \<or> 12 < length ident \<longrightarrow>
      onRequestGet P env ident kv =
        (jsonResponse (ErrorResponse (js ''Invalid secret ID'')) 400, kv))
   \<and> (6 \<le> length ident \<and> length ident \<le> 12 \<longrightarrow>
      status (fst (onRequestGet P env ident kv)) \<noteq> 400
      \<and> take (Suc (length (calls kv))) (calls (snd (onRequestGet P env ident kv)))
          = calls kv @ [KvGet (js ''secret:'' @ ident)])"
proof (intro conjI impI)
  assume "length ident < 6 \<or> 12 < length ident"
  then show "onRequestGet P env ident kv =
      (jsonResponse (ErrorResponse (js ''Invalid secret ID'')) 400, kv)"
    by (simp add: onRequestGet_def)
next
  assume a: "6 \<le> length ident \<and> length ident \<le> 12"
  then have ne: "ident \<noteq> []" by auto
  from a ne show "status (fst (onRequestGet P env ident kv)) \<noteq> 400"
    by (simp add: onRequestGet_def kv_get_def kv_delete_def jsonResponse_def Let_def
        split: option.splits sum.splits)
  from a ne show "take (Suc (length (calls kv))) (calls (snd (onRequestGet P env ident kv)))
      = calls kv @ [KvGet (js ''secret:'' @ ident)]"
    by (simp add: onRequestGet_def kv_get_def kv_delete_def jsonResponse_def Let_def
        split: option.splits sum.splits)
qed

theorem id_shape_gate_witness:
  "onRequestGet example_platform example_env (js ''abcde'') empty_kv =
      (jsonResponse (ErrorResponse (js ''Invalid secret ID'')) 400, empty_kv)
   \<and> onRequestGet example_platform example_env (js ''abcdefghijklm'') empty_kv =
      (jsonResponse (ErrorResponse (js ''Invalid secret ID'')) 400, empty_kv)
   \<and> status (fst (onRequestGet example_platform example_env (js ''abcdef'') empty_kv)) \<noteq> 400
   \<and> calls (snd (onRequestGet example_platform example_env (js ''abcdef'') empty_kv))
        = [KvGet (js ''secret:abcdef'')]
   \<and> status (fst (onRequestGet example_platform example_env (js ''abcdefghijkl'') empty_kv)) \<noteq> 400
   \<and> calls (snd (onRequestGet example_platform example_env (js ''abcdefghijkl'') empty_kv))
        = [KvGet (js ''secret:abcdefghijkl'')]"
  using id_shape_gate [of "js ''abcde''" example_platform example_env empty_kv]
    id_shape_gate [of "js ''abcdefghijklm''" example_platform example_env empty_kv]
    id_shape_gate [of "js ''abcdef''" example_platform example_env empty_kv]
    id_shape_gate [of "js ''abcdefghijkl''" example_platform example_env empty_kv]
  by (simp add: js_def empty_kv_def onRequestGet_def kv_get_def Let_def)

subsection \<open>C7: invalid payloads\<close>

text \<open>
  C7. Take a creation whose body is a JSON object and whose \<open>encryptedData\<close> is missing
  or not a string, is the empty string, or is a string longer than 100 KiB. The store is
  returned as it was (nothing written, no call made) and the body is an error, with no
  identifier. With both bindings present the response is 413 with
  \<^verbatim>\<open>Payload too large\<close> for the string that is too long, and 400 with
  \<^verbatim>\<open>Missing or invalid encryptedData\<close> in the other cases.
\<close>

theorem invalid_payload_rejected:
  assumes "request_json ctx = Some req"
    and "encryptedData req = JsString [] \<or> (\<forall>s. encryptedData req \<noteq> JsString s)
         \<or> (\<exists>s. encryptedData req = JsString s \<and> 100 * 1024 < length s)"
  shows "snd (POST P ctx inp kv) = kv
     \<and> (\<exists>m. body (fst (POST P ctx inp kv)) = ErrorResponse m)
     \<and> (configured ctx masterKey \<longrightarrow>
          POST P ctx inp kv =
            (if \<exists>s. encryptedData req = JsString s \<and> s \<noteq> []
             then (jsonResponse (ErrorResponse (js ''Payload too large'')) 413, kv)
             else (jsonResponse (ErrorResponse (js ''Missing or invalid encryptedData'')) 400, kv)))"
proof -
  have bad: "falsy (encryptedData req) \<or> typeof (encryptedData req) \<noteq> ''string''
         \<or> length (string_of (encryptedData req)) > MAX_PAYLOAD_SIZE"
    using assms(2)
    by (cases "encryptedData req")
       (auto simp add: falsy_def typeof_def string_of_def MAX_PAYLOAD_SIZE_def)
  have c: "POST P ctx inp kv =
      (if \<exists>s. encryptedData req = JsString s \<and> s \<noteq> []
       then (jsonResponse (ErrorResponse (js ''Payload too large'')) 413, kv)
       else (jsonResponse (ErrorResponse (js ''Missing or invalid encryptedData'')) 400, kv))"
    if "configured ctx masterKey"
    using assms(2)
    by (cases "encryptedData req")
       (auto simp add: POST_configured [OF that assms(1)] falsy_def typeof_def string_of_def
          MAX_PAYLOAD_SIZE_def)
  from POST_invalid_leaves_store [OF assms(1) bad] c show ?thesis by blast
qed

theorem invalid_payload_rejected_witness:
  "POST example_platform (example_context JsUndefined None) example_inputs empty_kv =
     (jsonResponse (ErrorResponse (js ''Missing or invalid encryptedData'')) 400, empty_kv)
   \<and> POST example_platform (example_context (JsString []) None) example_inputs empty_kv =
     (jsonResponse (ErrorResponse (js ''Missing or invalid encryptedData'')) 400, empty_kv)
   \<and> POST example_platform (example_context (JsNumber 7) None) example_inputs empty_kv =
     (jsonResponse (ErrorResponse (js ''Missing or invalid encryptedData'')) 400, empty_kv)
   \<and> POST example_platform (example_context (JsString (replicate 102401 65)) None)
        example_inputs empty_kv =
     (jsonResponse (ErrorResponse (js ''Payload too large'')) 413, empty_kv)"
proof -
  have c: "configured (example_context v None) (js ''AAAA'')" for v
    by (simp add: configured_def example_context_def js_def)
  have r: "request_json (example_context v None) = Some \<lparr>encryptedData = v, expiresIn = None\<rparr>"
    for v by (simp add: example_context_def)
  have b: "encryptedData \<lparr>encryptedData = v, expiresIn = None\<rparr> = v" for v by simp
  have big: "(100 * 1024 :: nat) < length (replicate 102401 (65 :: 16 word))" by simp
  have ne: "replicate 102401 (65 :: 16 word) \<noteq> []" by simp
  note w = invalid_payload_rejected [OF r, of _ example_platform example_inputs empty_kv
      "js ''AAAA''", unfolded b]
  from w [of JsUndefined] w [of "JsString []"] w [of "JsNumber 7"]
    w [of "JsString (replicate 102401 65)"] c big ne
  show ?thesis by simp
qed

subsection \<open>C8: what an error response carries\<close>

text \<open>
  Every response of the two handlers that is not a success is an \<open>ErrorResponse\<close>, a
  single message. For a retrieval the status and message are one of three fixed pairs;
  for a creation they are one of five pairs, four of them fixed. Whatever was caught in
  a \<^verbatim>\<open>catch\<close> goes to the console and not into the body.
\<close>

lemma error_bodies:
  "(case body (fst (onRequestGet P env ident kv)) of
      ErrorResponse m \<Rightarrow>
        (status (fst (onRequestGet P env ident kv)), m) \<in>
          {(400, js ''Invalid secret ID''),
           (404, js ''Secret not found or already viewed''),
           (500, js ''Failed to retrieve secret'')}
    | GetSecretResponse c \<Rightarrow> status (fst (onRequestGet P env ident kv)) = 200
    | CreateSecretResponse i t \<Rightarrow> False)
   \<and> (case body (fst (POST P ctx inp kv)) of
      ErrorResponse m \<Rightarrow>
        (status (fst (POST P ctx inp kv)), m) \<in>
          {(400, js ''Missing or invalid encryptedData''),
           (413, js ''Payload too large''),
           (500, js ''Failed to create secret''),
           (500, js ''Server configuration error: encryption key not set''),
           (500, js ''Server configuration error: KV not bound. Debug: locals keys=[''
                   @ join_comma (localsKeys ctx) @ js '']'')}
    | GetSecretResponse c \<Rightarrow> False
    | CreateSecretResponse i t \<Rightarrow> status (fst (POST P ctx inp kv)) = 201)"
proof
  show "case body (fst (onRequestGet P env ident kv)) of
      ErrorResponse m \<Rightarrow>
        (status (fst (onRequestGet P env ident kv)), m) \<in>
          {(400, js ''Invalid secret ID''),
           (404, js ''Secret not found or already viewed''),
           (500, js ''Failed to retrieve secret'')}
    | GetSecretResponse c \<Rightarrow> status (fst (onRequestGet P env ident kv)) = 200
    | CreateSecretResponse i t \<Rightarrow> False"
    by (simp add: onRequestGet_def jsonResponse_def kv_get_def Let_def
        split: option.split sum.split)
  show "case body (fst (POST P ctx inp kv)) of
      ErrorResponse m \<Rightarrow>
        (status (fst (POST P ctx inp kv)), m) \<in>
          {(400, js ''Missing or invalid encryptedData''),
           (413, js ''Payload too large''),
           (500, js ''Failed to create secret''),
           (500, js ''Server configuration error: encryption key not set''),
           (500, js ''Server configuration error: KV not bound. Debug: locals keys=[''
                   @ join_comma (localsKeys ctx) @ js '']'')}
    | GetSecretResponse c \<Rightarrow> False
    | CreateSecretResponse i t \<Rightarrow> status (fst (POST P ctx inp kv)) = 201"
    by (simp add: POST_def jsonResponse_def Let_def split: option.split sum.split)
qed

text \<open>
  C8. The claim: an error response carries only a short message, and no internal detail
  such as a configuration or binding name appears in a body. One path of the creation
  handler does not meet it: when the store binding is missing (line 255), the message
  ends in the keys of the request's \<^verbatim>\<open>locals\<close> object, here \<^verbatim>\<open>runtime\<close> and
  \<^verbatim>\<open>session\<close>. The test of the other binding, ten lines below, answers with a fixed
  message.
\<close>

theorem locals_keys_in_error_body:
  "fst (POST example_platform unbound_context example_inputs empty_kv)
     = jsonResponse
         (ErrorResponse
            (js ''Server configuration error: KV not bound. Debug: locals keys=[runtime,session]''))
         500"
  by (simp add: POST_def jsonResponse_def js_def unbound_context_def)

subsection \<open>C9: \<open>createdAt\<close> is not consulted\<close>

text \<open>
  C9. The response of a retrieval does not depend on the \<open>createdAt\<close> of the stored
  record: two stores whose records under the identifier parse to records that differ
  only in \<open>createdAt\<close> give the same response.
\<close>

theorem createdAt_not_consulted:
  assumes "entries kv1 (js ''secret:'' @ ident) = Some e1"
    and "entries kv2 (js ''secret:'' @ ident) = Some e2"
    and "kv_value e1 \<noteq> []" and "kv_value e2 \<noteq> []"
    and "json_parse P (kv_value e1) = Some r1" and "json_parse P (kv_value e2) = Some r2"
    and "r2 = r1\<lparr>createdAt := t\<rparr>"
  shows "fst (onRequestGet P env ident kv1) = fst (onRequestGet P env ident kv2)"
proof (cases "6 \<le> length ident \<and> length ident \<le> 12")
  case True
  then have len: "6 \<le> length ident" "length ident \<le> 12" by simp_all
  note p1 = onRequestGet_present [OF len assms(1) assms(3) assms(5)]
  note p2 = onRequestGet_present [OF len assms(2) assms(4) assms(6)]
  show ?thesis unfolding p1 p2 by (simp add: assms(7))
next
  case False
  then show ?thesis by (auto simp add: onRequestGet_def)
qed

theorem createdAt_not_consulted_witness:
  "fst (onRequestGet example_platform example_env (js ''abcdef'')
          (example_store (1 # example_envelope)))
   = fst (onRequestGet example_platform example_env (js ''abcdef'')
          (example_store (2 # example_envelope)))"
proof -
  have e: "entries (example_store v) (js ''secret:'' @ js ''abcdef'')
      = Some \<lparr>kv_value = v, expirationTtl = 3600\<rparr>" for v
    by (simp add: example_store_def js_def)
  have p1: "json_parse example_platform (1 # example_envelope)
      = Some \<lparr>data = example_envelope, createdAt = 1\<rparr>"
    by (simp add: example_platform_def)
  have p2: "json_parse example_platform (2 # example_envelope)
      = Some \<lparr>data = example_envelope, createdAt = 2\<rparr>"
    by (simp add: example_platform_def)
  have u: "\<lparr>data = example_envelope, createdAt = 2\<rparr>
      = \<lparr>data = example_envelope, createdAt = 1\<rparr>\<lparr>createdAt := 2\<rparr>"
    by simp
  have n: "kv_value \<lparr>kv_value = c # example_envelope, expirationTtl = 3600\<rparr> \<noteq> []" for c
    by simp
  have q: "json_parse example_platform
       (kv_value \<lparr>kv_value = c # example_envelope, expirationTtl = 3600\<rparr>)
     = json_parse example_platform (c # example_envelope)" for c
    by simp
  from createdAt_not_consulted [OF e e n n p1 [folded q] p2 [folded q] u]
  show ?thesis by (simp add: js_def)
qed

subsection \<open>C10: a generated key is a valid key\<close>

text \<open>
  C10. Every key string that \<open>generateKey\<close> produces is accepted by \<open>isValidKey\<close>: for
  every 32-byte buffer \<open>b\<close>, \<open>generateKey\<close> returns a string, decoding that string with
  \<open>base64urlToArrayBuffer\<close> gives back \<open>b\<close> (the unpadded base64url encoding round-trips),
  and the string passes the key-shape check of the view page.
\<close>

theorem generated_key_is_valid:
  "length b = 32 \<Longrightarrow>
     \<exists>key. generateKey b = Inr key \<and> base64urlToArrayBuffer key = Inr b \<and> isValidKey key"
proof -
  assume len: "length b = 32"
  obtain key where k: "arrayBufferToBase64url b = Inr key"
    by (simp add: arrayBufferToBase64url_eq)
  from base64url_roundtrip [OF k] len k show ?thesis
    by (simp add: generateKey_def isValidKey_def)
qed

theorem generated_key_is_valid_witness:
  "generateKey example_raw_key = Inr example_key
   \<and> base64urlToArrayBuffer example_key = Inr example_raw_key
   \<and> isValidKey example_key"
proof -
  have "length example_raw_key = 32" by (simp add: example_raw_key_def)
  from generated_key_is_valid [OF this] show ?thesis
    by (simp add: generateKey_def example_key_generated)
qed

end
